theory Spec2Isabelle
  imports Complex_Main "HOL-Library.AList" "HOL-Library.Sublist"
    "HOL-Library.Char_ord" "HOL-Library.List_Lexorder" "HOL-Library.Word"
begin

section \<open>The thumbnail cache over localStorage\<close>

text \<open>
  The embedding follows \<^verbatim>\<open>utils/thumbnailCache\<close> (class \<^verbatim>\<open>ThumbnailCache\<close>) and the
  2D branch of \<^verbatim>\<open>ThumbnailGenerator\<close>.

  \<^item> \<^verbatim>\<open>localStorage\<close> is an association list of keys and stored texts, in the order in which
    \<^verbatim>\<open>localStorage.key(i)\<close> enumerates it. The order is user-agent defined; here
    \<^verbatim>\<open>setItem\<close> overwrites in place or appends, and \<^verbatim>\<open>removeItem\<close> closes the gap.
  \<^item> A stored text is classified by what the code can observe of it: the empty string (falsy
    in \<^verbatim>\<open>if (!item)\<close>), a text on which \<^verbatim>\<open>JSON.parse\<close> throws, or the JSON of a
    \<^verbatim>\<open>CacheEntry\<close>. A text that parses to something else is outside the model, as the
    annotation \<^verbatim>\<open>const entry: CacheEntry = JSON.parse(item)\<close> of the source presumes.
  \<^item> The browser is a \<open>device\<close>: when \<open>denied\<close>, every access to \<^verbatim>\<open>localStorage\<close> throws;
    \<open>quota_ok\<close> says which contents the storage accepts on a write.
  \<^item> The browser does not change during one call of a method.
  \<^item> \<^verbatim>\<open>Date.now()\<close> is an argument (milliseconds, an integer); \<^verbatim>\<open>set\<close> reads the clock
    a second time when it retries.
  \<^item> An exception that leaves a method is the outcome \<open>Throws\<close>; the storage reached so far
    is returned with it.
\<close>

subsection \<open>Data\<close>

record CacheEntry =
  dataUrl :: string
  timestamp :: int
  size_bytes :: nat

datatype stored = Blank | Malformed | Json CacheEntry

type_synonym items = "(string \<times> stored) list"

datatype exn = SecurityError | QuotaExceededError | SyntaxError

datatype 'a outcome = Returns 'a | Throws exn

record device =
  denied :: bool
  quota_ok :: "items \<Rightarrow> bool"

definition CACHE_PREFIX :: string where
  "CACHE_PREFIX = ''thumbnail_''"

definition MAX_CACHE_SIZE :: nat where
  "MAX_CACHE_SIZE = 50 * 1024 * 1024"

definition MAX_CACHE_ITEMS :: nat where
  "MAX_CACHE_ITEMS = 100"

definition maxAge :: int where
  "maxAge = 7 * 24 * 60 * 60 * 1000"

subsection \<open>The storage interface\<close>

definition localStorage_length :: "device \<Rightarrow> items \<Rightarrow> nat outcome" where
  "localStorage_length dev s = (if denied dev then Throws SecurityError else Returns (length s))"

definition localStorage_key :: "device \<Rightarrow> nat \<Rightarrow> items \<Rightarrow> string option outcome" where
  "localStorage_key dev i s =
     (if denied dev then Throws SecurityError
      else Returns (if i < length s then Some (fst (s ! i)) else None))"

definition getItem :: "device \<Rightarrow> string \<Rightarrow> items \<Rightarrow> stored option outcome" where
  "getItem dev key s = (if denied dev then Throws SecurityError else Returns (map_of s key))"

definition setItem :: "device \<Rightarrow> string \<Rightarrow> stored \<Rightarrow> items \<Rightarrow> unit outcome \<times> items" where
  "setItem dev key v s =
     (if denied dev then (Throws SecurityError, s)
      else if quota_ok dev (AList.update key v s) then (Returns (), AList.update key v s)
      else (Throws QuotaExceededError, s))"

definition removeItem :: "device \<Rightarrow> string \<Rightarrow> items \<Rightarrow> unit outcome \<times> items" where
  "removeItem dev key s =
     (if denied dev then (Throws SecurityError, s) else (Returns (), AList.delete key s))"

fun JSON_parse :: "stored \<Rightarrow> exn + CacheEntry" where
  "JSON_parse (Json e) = Inr e"
| "JSON_parse Malformed = Inl SyntaxError"
| "JSON_parse Blank = Inl SyntaxError"

definition JSON_stringify :: "CacheEntry \<Rightarrow> stored" where
  "JSON_stringify e = Json e"

subsection \<open>ThumbnailCache\<close>

text \<open>
  \<^verbatim>\<open>getAllEntries\<close>: the loop \<^verbatim>\<open>for (let i = 0; i < localStorage.length; i++)\<close>. The length is
  read again at every round, and a removal inside the loop shifts the later keys down
  while \<open>i\<close> still moves on. The inner \<^verbatim>\<open>try\<close> covers \<^verbatim>\<open>getItem\<close> and \<^verbatim>\<open>JSON.parse\<close>; its
  handler removes the key, and what the handler throws leaves the method.
\<close>

function getAllEntries_loop ::
  "device \<Rightarrow> nat \<Rightarrow> (string \<times> CacheEntry) list \<Rightarrow> items
    \<Rightarrow> (string \<times> CacheEntry) list outcome \<times> items" where
  "getAllEntries_loop dev i entries s =
     (case localStorage_length dev s of
        Throws e \<Rightarrow> (Throws e, s)
      | Returns n \<Rightarrow>
          if i < n then
            (case localStorage_key dev i s of
               Throws e \<Rightarrow> (Throws e, s)
             | Returns None \<Rightarrow> getAllEntries_loop dev (i + 1) entries s
             | Returns (Some key) \<Rightarrow>
                 if key \<noteq> [] \<and> prefix CACHE_PREFIX key then
                   (case getItem dev key s of
                      Throws e \<Rightarrow>
                        (case removeItem dev key s of
                           (Throws e', s1) \<Rightarrow> (Throws e', s1)
                         | (Returns _, s1) \<Rightarrow> getAllEntries_loop dev (i + 1) entries s1)
                    | Returns None \<Rightarrow> getAllEntries_loop dev (i + 1) entries s
                    | Returns (Some Blank) \<Rightarrow> getAllEntries_loop dev (i + 1) entries s
                    | Returns (Some item) \<Rightarrow>
                        (case JSON_parse item of
                           Inl e \<Rightarrow>
                             (case removeItem dev key s of
                                (Throws e', s1) \<Rightarrow> (Throws e', s1)
                              | (Returns _, s1) \<Rightarrow> getAllEntries_loop dev (i + 1) entries s1)
                         | Inr entry \<Rightarrow>
                             getAllEntries_loop dev (i + 1) (entries @ [(key, entry)]) s))
                 else getAllEntries_loop dev (i + 1) entries s)
          else (Returns entries, s))"
  by pat_completeness auto
termination
  apply (relation "measure (\<lambda>(dev, i, entries, s). length s - i)")
   apply (auto simp add: localStorage_length_def removeItem_def split: if_splits)
  subgoal for dev i s key
    using AList.length_delete_le [of key s] by arith
  subgoal for dev i s key e
    using AList.length_delete_le [of key s] by arith
  done

declare getAllEntries_loop.simps [simp del]

definition getAllEntries ::
  "device \<Rightarrow> items \<Rightarrow> (string \<times> CacheEntry) list outcome \<times> items" where
  "getAllEntries dev s = getAllEntries_loop dev 0 [] s"

text \<open>\<^verbatim>\<open>toRemove.forEach(({ key }) => localStorage.removeItem(key))\<close>\<close>

fun removeAll_keys :: "device \<Rightarrow> string list \<Rightarrow> items \<Rightarrow> unit outcome \<times> items" where
  "removeAll_keys dev [] s = (Returns (), s)"
| "removeAll_keys dev (k # ks) s =
     (case removeItem dev k s of
        (Throws e, s1) \<Rightarrow> (Throws e, s1)
      | (Returns _, s1) \<Rightarrow> removeAll_keys dev ks s1)"

text \<open>\<^verbatim>\<open>entries.slice(0, end)\<close>: a negative end counts from the end of the array.\<close>

definition slice0 :: "int \<Rightarrow> 'a list \<Rightarrow> 'a list" where
  "slice0 e xs = (if e < 0 then take (nat (int (length xs) + e)) xs else take (nat e) xs)"

text \<open>
  \<^verbatim>\<open>cleanup(count)\<close>: the whole body is inside \<^verbatim>\<open>try\<close>, and the handler only logs.
  \<^verbatim>\<open>Array.prototype.sort\<close> is stable, and so is \<open>sort_key\<close>.
\<close>

definition cleanup :: "device \<Rightarrow> int \<Rightarrow> items \<Rightarrow> unit outcome \<times> items" where
  "cleanup dev count s =
     (case getAllEntries dev s of
        (Throws e, s1) \<Rightarrow> (Returns (), s1)
      | (Returns entries, s1) \<Rightarrow>
          (let sorted = sort_key (\<lambda>p. timestamp (snd p)) entries;
               toRemove = slice0 (min count (int (length sorted))) sorted
           in case removeAll_keys dev (map fst toRemove) s1 of
                (Throws e, s2) \<Rightarrow> (Returns (), s2)
              | (Returns _, s2) \<Rightarrow> (Returns (), s2)))"

definition totalSize :: "(string \<times> CacheEntry) list \<Rightarrow> nat" where
  "totalSize entries = foldl (\<lambda>total p. total + size_bytes (snd p)) 0 entries"

text \<open>
  \<^verbatim>\<open>Math.ceil(entries.length * 0.2)\<close>: the double nearest to 0.2 is \<open>0.2 * (1 + 2^-54)\<close>, so the
  product rounds to the integer \<open>n / 5\<close> when 5 divides \<open>n\<close> and lies strictly between two
  integers otherwise (for \<open>n\<close> below \<open>2^53\<close>); the result is the integer ceiling of \<open>n / 5\<close>.
\<close>

definition removeCount :: "nat \<Rightarrow> int" where
  "removeCount n = max (int n - int MAX_CACHE_ITEMS + 10) (int ((n + 4) div 5))"

text \<open>\<^verbatim>\<open>cleanupIfNeeded\<close> has no \<^verbatim>\<open>try\<close>: what \<^verbatim>\<open>getAllEntries\<close> throws leaves it.\<close>

definition cleanupIfNeeded :: "device \<Rightarrow> items \<Rightarrow> unit outcome \<times> items" where
  "cleanupIfNeeded dev s =
     (case getAllEntries dev s of
        (Throws e, s1) \<Rightarrow> (Throws e, s1)
      | (Returns entries, s1) \<Rightarrow>
          if totalSize entries > MAX_CACHE_SIZE \<or> length entries > MAX_CACHE_ITEMS
          then cleanup dev (removeCount (length entries)) s1
          else (Returns (), s1))"

text \<open>
  \<^verbatim>\<open>set(modelId, dataUrl)\<close>. \<open>set_retry\<close> is the handler of the outer \<^verbatim>\<open>try\<close>; the entry is
  built again there, with a second reading of the clock.
\<close>

definition set_retry :: "device \<Rightarrow> int \<Rightarrow> string \<Rightarrow> string \<Rightarrow> items \<Rightarrow> unit outcome \<times> items" where
  "set_retry dev now modelId url s =
     (case cleanup dev 10 s of
        (Throws e, s1) \<Rightarrow> (Throws e, s1)
      | (Returns _, s1) \<Rightarrow>
          (case setItem dev (CACHE_PREFIX @ modelId)
                  (JSON_stringify \<lparr>dataUrl = url, timestamp = now, size_bytes = length url\<rparr>) s1 of
             (Throws e, s2) \<Rightarrow> (Returns (), s2)
           | (Returns _, s2) \<Rightarrow> (Returns (), s2)))"

definition set_cache ::
  "device \<Rightarrow> int \<Rightarrow> int \<Rightarrow> string \<Rightarrow> string \<Rightarrow> items \<Rightarrow> unit outcome \<times> items" where
  "set_cache dev now now_retry modelId url s =
     (case cleanupIfNeeded dev s of
        (Throws e, s1) \<Rightarrow> set_retry dev now_retry modelId url s1
      | (Returns _, s1) \<Rightarrow>
          (case setItem dev (CACHE_PREFIX @ modelId)
                  (JSON_stringify \<lparr>dataUrl = url, timestamp = now, size_bytes = length url\<rparr>) s1 of
             (Throws e, s2) \<Rightarrow> set_retry dev now_retry modelId url s2
           | (Returns _, s2) \<Rightarrow> (Returns (), s2)))"

text \<open>\<^verbatim>\<open>get(modelId)\<close>: every exception inside ends in \<^verbatim>\<open>return null\<close>.\<close>

definition get :: "device \<Rightarrow> int \<Rightarrow> string \<Rightarrow> items \<Rightarrow> string option outcome \<times> items" where
  "get dev now modelId s =
     (let key = CACHE_PREFIX @ modelId in
      case getItem dev key s of
        Throws e \<Rightarrow> (Returns None, s)
      | Returns None \<Rightarrow> (Returns None, s)
      | Returns (Some Blank) \<Rightarrow> (Returns None, s)
      | Returns (Some item) \<Rightarrow>
          (case JSON_parse item of
             Inl e \<Rightarrow> (Returns None, s)
           | Inr entry \<Rightarrow>
               if now - timestamp entry > maxAge
               then (case removeItem dev key s of
                       (Throws e, s1) \<Rightarrow> (Returns None, s1)
                     | (Returns _, s1) \<Rightarrow> (Returns None, s1))
               else (Returns (Some (dataUrl entry)), s)))"

definition remove :: "device \<Rightarrow> string \<Rightarrow> items \<Rightarrow> unit outcome \<times> items" where
  "remove dev modelId s =
     (case removeItem dev (CACHE_PREFIX @ modelId) s of
        (Throws e, s1) \<Rightarrow> (Returns (), s1)
      | (Returns _, s1) \<Rightarrow> (Returns (), s1))"

definition getCacheSize :: "device \<Rightarrow> items \<Rightarrow> nat outcome \<times> items" where
  "getCacheSize dev s =
     (case getAllEntries dev s of
        (Throws e, s1) \<Rightarrow> (Throws e, s1)
      | (Returns entries, s1) \<Rightarrow> (Returns (totalSize entries), s1))"

text \<open>
  \<^verbatim>\<open>getStats()\<close> calls \<^verbatim>\<open>getAllEntries\<close> outside any \<^verbatim>\<open>try\<close>. The field
  \<^verbatim>\<open>sizeFormatted\<close>, a display text computed from the size, is left out.
\<close>

record Stats =
  count :: nat
  stats_size :: nat

definition getStats :: "device \<Rightarrow> items \<Rightarrow> Stats outcome \<times> items" where
  "getStats dev s =
     (case getAllEntries dev s of
        (Throws e, s1) \<Rightarrow> (Throws e, s1)
      | (Returns entries, s1) \<Rightarrow>
          (Returns \<lparr>count = length entries, stats_size = totalSize entries\<rparr>, s1))"

definition clear :: "device \<Rightarrow> items \<Rightarrow> unit outcome \<times> items" where
  "clear dev s =
     (case getAllEntries dev s of
        (Throws e, s1) \<Rightarrow> (Returns (), s1)
      | (Returns entries, s1) \<Rightarrow>
          (case removeAll_keys dev (map fst entries) s1 of
             (Throws e, s2) \<Rightarrow> (Returns (), s2)
           | (Returns _, s2) \<Rightarrow> (Returns (), s2)))"

definition has :: "device \<Rightarrow> int \<Rightarrow> string \<Rightarrow> items \<Rightarrow> bool outcome \<times> items" where
  "has dev now modelId s =
     (case get dev now modelId s of
        (Throws e, s1) \<Rightarrow> (Throws e, s1)
      | (Returns r, s1) \<Rightarrow> (Returns (r \<noteq> None), s1))"

subsection \<open>ThumbnailGenerator, 2D images\<close>

text \<open>
  The numbers of the source are doubles. A \<open>number\<close> is a finite double, an infinity or
  \<^verbatim>\<open>NaN\<close>; the sign of zero is not kept (no operand below is a negative zero).
  \<open>round_double\<close> rounds a real to the nearest number with 53 significant bits, ties to the
  even one, as every arithmetic operation on doubles does. The exponent is not bounded in
  \<open>round_double\<close>: the values below are zero or lie between \<open>2^-53\<close> and \<open>2^33\<close> in
  absolute value, where doubles neither overflow nor lose bits.
\<close>

datatype number = Num real | PosInf | NegInf | NaN

definition round_half_even :: "real \<Rightarrow> int" where
  "round_half_even r =
     (let f = \<lfloor>r\<rfloor> in
      if r - of_int f < 1 / 2 then f
      else if 1 / 2 < r - of_int f then f + 1
      else if even f then f else f + 1)"

definition round_double :: "real \<Rightarrow> real" where
  "round_double x =
     (if x = 0 then 0
      else (let e = \<lfloor>log 2 \<bar>x\<bar>\<rfloor>; ulp = 2 powr (of_int e - 52)
            in of_int (round_half_even (x / ulp)) * ulp))"

text \<open>The operators \<^verbatim>\<open>/\<close>, \<^verbatim>\<open>*\<close>, \<^verbatim>\<open>-\<close> and \<^verbatim>\<open>Math.min\<close> on numbers.\<close>

fun js_div :: "number \<Rightarrow> number \<Rightarrow> number" where
  "js_div (Num x) (Num y) =
     (if y = 0 then (if x = 0 then NaN else if 0 < x then PosInf else NegInf)
      else Num (round_double (x / y)))"
| "js_div (Num x) PosInf = Num 0"
| "js_div (Num x) NegInf = Num 0"
| "js_div PosInf (Num y) = (if 0 \<le> y then PosInf else NegInf)"
| "js_div NegInf (Num y) = (if 0 \<le> y then NegInf else PosInf)"
| "js_div _ _ = NaN"

fun js_mul :: "number \<Rightarrow> number \<Rightarrow> number" where
  "js_mul (Num x) (Num y) = Num (round_double (x * y))"
| "js_mul (Num x) PosInf = (if x = 0 then NaN else if 0 < x then PosInf else NegInf)"
| "js_mul (Num x) NegInf = (if x = 0 then NaN else if 0 < x then NegInf else PosInf)"
| "js_mul PosInf (Num y) = (if y = 0 then NaN else if 0 < y then PosInf else NegInf)"
| "js_mul NegInf (Num y) = (if y = 0 then NaN else if 0 < y then NegInf else PosInf)"
| "js_mul PosInf PosInf = PosInf"
| "js_mul NegInf NegInf = PosInf"
| "js_mul PosInf NegInf = NegInf"
| "js_mul NegInf PosInf = NegInf"
| "js_mul _ _ = NaN"

fun js_sub :: "number \<Rightarrow> number \<Rightarrow> number" where
  "js_sub (Num x) (Num y) = Num (round_double (x - y))"
| "js_sub (Num x) PosInf = NegInf"
| "js_sub (Num x) NegInf = PosInf"
| "js_sub PosInf (Num y) = PosInf"
| "js_sub NegInf (Num y) = NegInf"
| "js_sub PosInf NegInf = PosInf"
| "js_sub NegInf PosInf = NegInf"
| "js_sub _ _ = NaN"

fun Math_min :: "number \<Rightarrow> number \<Rightarrow> number" where
  "Math_min NaN _ = NaN"
| "Math_min _ NaN = NaN"
| "Math_min NegInf _ = NegInf"
| "Math_min _ NegInf = NegInf"
| "Math_min PosInf b = b"
| "Math_min a PosInf = a"
| "Math_min (Num x) (Num y) = Num (min x y)"

text \<open>
  The \<^verbatim>\<open>img.onload\<close> handler for an image whose \<^verbatim>\<open>width\<close> and \<^verbatim>\<open>height\<close> are the given
  unsigned 32-bit integers. \<open>ctx\<close> says whether \<^verbatim>\<open>canvas.getContext('2d')\<close> gave a context;
  without one the handler draws nothing and does not call \<^verbatim>\<open>onThumbnailGenerated\<close>. The
  result records the size of the canvas, the fill colour and the arguments of
  \<^verbatim>\<open>ctx.drawImage(img, x, y, scaledWidth, scaledHeight)\<close>.
\<close>

record Drawing =
  canvas_width :: nat
  canvas_height :: nat
  fillStyle :: string
  draw_scale :: number
  draw_x :: number
  draw_y :: number
  scaledWidth :: number
  scaledHeight :: number

definition thumbnail2d :: "bool \<Rightarrow> 32 word \<Rightarrow> 32 word \<Rightarrow> Drawing option" where
  "thumbnail2d ctx width height =
     (if \<not> ctx then None
      else
        (let size = Num 400;
             scale = Math_min (js_div size (Num (real (unat width))))
                              (js_div size (Num (real (unat height))));
             sw = js_mul (Num (real (unat width))) scale;
             sh = js_mul (Num (real (unat height))) scale;
             x = js_div (js_sub size sw) (Num 2);
             y = js_div (js_sub size sh) (Num 2)
         in Some \<lparr>canvas_width = 400, canvas_height = 400, fillStyle = ''#f9fafb'',
                   draw_scale = scale, draw_x = x, draw_y = y,
                   scaledWidth = sw, scaledHeight = sh\<rparr>))"

section \<open>Reading a storage\<close>

text \<open>
  The entries that an enumeration of a storage yields, in the order of the enumeration:
  the keys under the namespace that hold the JSON of an entry. A storage is \<open>clean\<close> when
  its keys are distinct and every key under the namespace holds such a JSON; these are the
  storages that the cache itself leaves behind. On a clean storage \<^verbatim>\<open>getAllEntries\<close>
  returns \<open>entries_of\<close> and removes nothing (lemma \<open>getAllEntries_clean\<close>), so the number
  of cached items is \<open>length (entries_of s)\<close> and their recorded size is
  \<open>totalSize (entries_of s)\<close>.
\<close>

fun entries_of :: "items \<Rightarrow> (string \<times> CacheEntry) list" where
  "entries_of [] = []"
| "entries_of ((k, Json e) # s) =
     (if prefix CACHE_PREFIX k then (k, e) # entries_of s else entries_of s)"
| "entries_of (_ # s) = entries_of s"

fun is_entry :: "stored \<Rightarrow> bool" where
  "is_entry (Json e) = True"
| "is_entry _ = False"

definition clean :: "items \<Rightarrow> bool" where
  "clean s \<longleftrightarrow> distinct (map fst s)
     \<and> list_all (\<lambda>p. prefix CACHE_PREFIX (fst p) \<longrightarrow> is_entry (snd p)) s"

text \<open>
  The text that \<^verbatim>\<open>set\<close> writes for a payload at a clock reading.
\<close>

definition entry_at :: "int \<Rightarrow> string \<Rightarrow> stored" where
  "entry_at now url = Json \<lparr>dataUrl = url, timestamp = now, size_bytes = length url\<rparr>"

text \<open>
  A sequence of \<^verbatim>\<open>set\<close> calls; each call comes with the state of the browser at that
  moment and with its two readings of the clock.
\<close>

fun run_sets :: "(device \<times> int \<times> int \<times> string \<times> string) list \<Rightarrow> items \<Rightarrow> items" where
  "run_sets [] s = s"
| "run_sets ((dev, now, now_retry, modelId, url) # calls) s =
     run_sets calls (snd (set_cache dev now now_retry modelId url s))"

subsection \<open>Closed forms\<close>

text \<open>
  What \<^verbatim>\<open>cleanup\<close>, \<^verbatim>\<open>cleanupIfNeeded\<close> and \<^verbatim>\<open>set\<close> leave of a clean storage, written
  without the loop. The lemmas \<open>cleanup_clean\<close>, \<open>cleanupIfNeeded_clean\<close> and
  \<open>set_cache_clean\<close> show that the code computes them.
\<close>

definition victims :: "int \<Rightarrow> (string \<times> CacheEntry) list \<Rightarrow> (string \<times> CacheEntry) list" where
  "victims c es = slice0 (min c (int (length es))) (sort_key (\<lambda>p. timestamp (snd p)) es)"

definition evict :: "int \<Rightarrow> items \<Rightarrow> items" where
  "evict c s = filter (\<lambda>p. fst p \<notin> fst ` set (victims c (entries_of s))) s"

definition over_limit :: "items \<Rightarrow> bool" where
  "over_limit s \<longleftrightarrow> totalSize (entries_of s) > MAX_CACHE_SIZE
     \<or> length (entries_of s) > MAX_CACHE_ITEMS"

definition after_check :: "items \<Rightarrow> items" where
  "after_check s = (if over_limit s then evict (removeCount (length (entries_of s))) s else s)"

definition after_set :: "device \<Rightarrow> int \<Rightarrow> int \<Rightarrow> string \<Rightarrow> string \<Rightarrow> items \<Rightarrow> items" where
  "after_set dev now now_retry modelId url s =
     (let key = CACHE_PREFIX @ modelId; s1 = after_check s in
      if quota_ok dev (AList.update key (entry_at now url) s1)
      then AList.update key (entry_at now url) s1
      else (let s2 = evict 10 s1 in
            if quota_ok dev (AList.update key (entry_at now_retry url) s2)
            then AList.update key (entry_at now_retry url) s2
            else s2))"

subsection \<open>Browsers and storages of the examples\<close>

text \<open>
  \<open>permissive\<close> accepts every write, \<open>small_disk\<close> holds entries of five characters
  in total at most, and on \<open>blocked\<close> every access to the storage throws.
\<close>

definition permissive :: device where
  "permissive = \<lparr>denied = False, quota_ok = (\<lambda>_. True)\<rparr>"

definition small_disk :: device where
  "small_disk = \<lparr>denied = False, quota_ok = (\<lambda>items. totalSize (entries_of items) \<le> 5)\<rparr>"

definition blocked :: device where
  "blocked = \<lparr>denied = True, quota_ok = (\<lambda>_. True)\<rparr>"

text \<open>
  \<open>fresh_calls n\<close> stores a one-character payload under \<open>n\<close> different ids,
  \<open>fresh_store n\<close> is the storage this leaves.
\<close>

definition fresh_id :: "nat \<Rightarrow> string" where
  "fresh_id i = replicate i (CHR ''m'')"

definition fresh_calls :: "nat \<Rightarrow> (device \<times> int \<times> int \<times> string \<times> string) list" where
  "fresh_calls n = map (\<lambda>i. (permissive, int i, int i, fresh_id i, ''x'')) [0..<n]"

definition fresh_store :: "nat \<Rightarrow> items" where
  "fresh_store n = map (\<lambda>i. (CACHE_PREFIX @ fresh_id i, entry_at (int i) ''x'')) [0..<n]"

text \<open>
  A storage that enumerates \<^verbatim>\<open>thumbnail_b\<close> before \<^verbatim>\<open>thumbnail_a\<close>; both hold a payload
  of 30,000,000 characters with the same timestamp.
\<close>

definition big_payload :: string where
  "big_payload = replicate 30000000 (CHR ''A'')"

definition tie_store :: items where
  "tie_store = [(''thumbnail_b'', entry_at 5 big_payload), (''thumbnail_a'', entry_at 5 big_payload)]"

text \<open>
  A hundred entries of 524288 characters each, as \<^verbatim>\<open>set\<close> writes them
  (lemma \<open>full_cache_as_written\<close>), and smaller storages. In \<open>dirty_store\<close> two keys
  with unparsable texts come before two entries.
\<close>

definition half_mib_payload :: string where
  "half_mib_payload = replicate 524288 (CHR ''A'')"

definition full_cache :: items where
  "full_cache = map (\<lambda>i. (CACHE_PREFIX @ fresh_id i,
       Json \<lparr>dataUrl = half_mib_payload, timestamp = int i, size_bytes = 524288\<rparr>)) [0..<100]"

definition corrupt_store :: items where
  "corrupt_store = [(''thumbnail_a'', Malformed)]"


definition dirty_store :: items where
  "dirty_store = [(''thumbnail_a'', Malformed), (''thumbnail_b'', Malformed),
                  (''thumbnail_c'', entry_at 1 ''x''), (''thumbnail_d'', entry_at 2 ''y'')]"

section \<open>Lemmas\<close>

subsection \<open>The enumeration\<close>

lemma entries_of_other: "\<not> prefix CACHE_PREFIX (fst p) \<Longrightarrow> entries_of (p # s) = entries_of s"
proof -
  assume a: "\<not> prefix CACHE_PREFIX (fst p)"
  obtain k v where p: "p = (k, v)" by (cases p)
  show ?thesis using a unfolding p by (cases v) simp_all
qed

lemma entries_of_Json:
  "prefix CACHE_PREFIX (fst p) \<Longrightarrow> snd p = Json e \<Longrightarrow> entries_of (p # s) = (fst p, e) # entries_of s"
  by (cases p) simp

lemma entries_of_keys:
  "clean s \<Longrightarrow> map fst (entries_of s) = filter (prefix CACHE_PREFIX) (map fst s)"
proof (induction s)
  case Nil
  then show ?case by simp
next
  case (Cons p s)
  obtain k v where p: "p = (k, v)" by (cases p)
  have c: "clean s"
    using Cons.prems by (simp add: clean_def)
  show ?case
  proof (cases "prefix CACHE_PREFIX k")
    case True
    then obtain e where "v = Json e"
      using Cons.prems unfolding p clean_def by (cases v) simp_all
    then show ?thesis
      using True Cons.IH [OF c] unfolding p by simp
  next
    case False
    then show ?thesis
      using Cons.IH [OF c] unfolding p by (simp add: entries_of_other)
  qed
qed

lemma clean_nth:
  assumes "clean s" and "i < length s" and "prefix CACHE_PREFIX (fst (s ! i))"
  shows "\<exists>e. snd (s ! i) = Json e"
proof -
  have "s ! i \<in> set s" using assms(2) by simp
  with assms(1) have "prefix CACHE_PREFIX (fst (s ! i)) \<longrightarrow> is_entry (snd (s ! i))"
    unfolding clean_def list_all_iff by blast
  with assms(3) have "is_entry (snd (s ! i))" by simp
  then show ?thesis
    by (cases "snd (s ! i)") simp_all
qed

lemma map_of_nth:
  assumes "distinct (map fst s)" and "i < length s"
  shows "map_of s (fst (s ! i)) = Some (snd (s ! i))"
proof -
  have "(fst (s ! i), snd (s ! i)) \<in> set s"
    using assms(2) by simp
  then show ?thesis
    using assms(1) by (rule map_of_is_SomeI [rotated])
qed

lemma prefix_nonempty: "prefix CACHE_PREFIX key \<Longrightarrow> key \<noteq> []"
  by (auto simp add: CACHE_PREFIX_def)

lemma loop_denied: "denied dev \<Longrightarrow> getAllEntries_loop dev i acc s = (Throws SecurityError, s)"
  by (subst getAllEntries_loop.simps) (simp add: localStorage_length_def)

lemma loop_end:
  "\<not> denied dev \<Longrightarrow> \<not> i < length s \<Longrightarrow> getAllEntries_loop dev i acc s = (Returns acc, s)"
  by (subst getAllEntries_loop.simps) (simp add: localStorage_length_def)

lemma loop_other:
  "\<not> denied dev \<Longrightarrow> i < length s \<Longrightarrow> \<not> prefix CACHE_PREFIX (fst (s ! i))
    \<Longrightarrow> getAllEntries_loop dev i acc s = getAllEntries_loop dev (i + 1) acc s"
  by (subst getAllEntries_loop.simps) (simp add: localStorage_length_def localStorage_key_def)

lemma loop_skip:
  "\<not> denied dev \<Longrightarrow> i < length s \<Longrightarrow> prefix CACHE_PREFIX (fst (s ! i))
    \<Longrightarrow> map_of s (fst (s ! i)) = None \<or> map_of s (fst (s ! i)) = Some Blank
    \<Longrightarrow> getAllEntries_loop dev i acc s = getAllEntries_loop dev (i + 1) acc s"
  by (subst getAllEntries_loop.simps)
    (auto simp add: localStorage_length_def localStorage_key_def getItem_def prefix_nonempty)

lemma loop_entry:
  "\<not> denied dev \<Longrightarrow> i < length s \<Longrightarrow> prefix CACHE_PREFIX (fst (s ! i))
    \<Longrightarrow> map_of s (fst (s ! i)) = Some (Json e)
    \<Longrightarrow> getAllEntries_loop dev i acc s
        = getAllEntries_loop dev (i + 1) (acc @ [(fst (s ! i), e)]) s"
  by (subst getAllEntries_loop.simps)
    (simp add: localStorage_length_def localStorage_key_def getItem_def prefix_nonempty)

lemma loop_malformed:
  "\<not> denied dev \<Longrightarrow> i < length s \<Longrightarrow> prefix CACHE_PREFIX (fst (s ! i))
    \<Longrightarrow> map_of s (fst (s ! i)) = Some Malformed
    \<Longrightarrow> getAllEntries_loop dev i acc s
        = getAllEntries_loop dev (i + 1) acc (AList.delete (fst (s ! i)) s)"
  by (subst getAllEntries_loop.simps)
    (simp add: localStorage_length_def localStorage_key_def getItem_def removeItem_def
      prefix_nonempty)

lemma loop_clean:
  assumes "\<not> denied dev" and "clean s"
  shows "getAllEntries_loop dev i acc s = (Returns (acc @ entries_of (drop i s)), s)"
proof (induction "length s - i" arbitrary: i acc)
  case 0
  then show ?case
    using assms(1) by (simp add: loop_end)
next
  case (Suc n)
  then have i: "i < length s" by simp
  have n: "n = length s - (i + 1)" using Suc.hyps(2) by simp
  have dr: "drop i s = s ! i # drop (i + 1) s"
    using i by (simp add: Cons_nth_drop_Suc)
  have mo: "map_of s (fst (s ! i)) = Some (snd (s ! i))"
    using assms(2) i by (simp add: map_of_nth clean_def)
  show ?case
  proof (cases "prefix CACHE_PREFIX (fst (s ! i))")
    case True
    then obtain e where e: "snd (s ! i) = Json e"
      using clean_nth [OF assms(2) i] by blast
    have "getAllEntries_loop dev i acc s
        = getAllEntries_loop dev (i + 1) (acc @ [(fst (s ! i), e)]) s"
      using mo unfolding e by (rule loop_entry [OF assms(1) i True])
    also have "\<dots> = (Returns ((acc @ [(fst (s ! i), e)]) @ entries_of (drop (i + 1) s)), s)"
      by (rule Suc.hyps(1) [OF n])
    finally show ?thesis
      unfolding dr entries_of_Json [OF True e] by simp
  next
    case False
    have "getAllEntries_loop dev i acc s = getAllEntries_loop dev (i + 1) acc s"
      by (rule loop_other [OF assms(1) i False])
    also have "\<dots> = (Returns (acc @ entries_of (drop (i + 1) s)), s)"
      by (rule Suc.hyps(1) [OF n])
    finally show ?thesis
      unfolding dr entries_of_other [OF False] .
  qed
qed

lemma getAllEntries_clean:
  "\<not> denied dev \<Longrightarrow> clean s \<Longrightarrow> getAllEntries dev s = (Returns (entries_of s), s)"
  by (simp add: getAllEntries_def loop_clean)

lemma getAllEntries_denied: "denied dev \<Longrightarrow> getAllEntries dev s = (Throws SecurityError, s)"
  unfolding getAllEntries_def by (rule loop_denied)

lemma loop_returns:
  assumes "\<not> denied dev"
  shows "\<exists>es s'. getAllEntries_loop dev i acc s = (Returns es, s')"
proof (induction "length s - i" arbitrary: i acc s rule: less_induct)
  case less
  show ?case
  proof (cases "i < length s")
    case False
    then show ?thesis
      using assms by (simp add: loop_end)
  next
    case i: True
    have step: "\<exists>es s'. getAllEntries_loop dev (i + 1) acc' s = (Returns es, s')" for acc'
      using i by (intro less) simp
    show ?thesis
    proof (cases "prefix CACHE_PREFIX (fst (s ! i))")
      case False
      then show ?thesis
        using step [of acc] by (simp add: loop_other [OF assms i])
    next
      case pre: True
      show ?thesis
      proof (cases "map_of s (fst (s ! i))")
        case None
        then show ?thesis
          using step [of acc] by (simp add: loop_skip [OF assms i pre])
      next
        case (Some v)
        show ?thesis
        proof (cases v)
          case Blank
          then show ?thesis
            using step [of acc] Some by (simp add: loop_skip [OF assms i pre])
        next
          case Malformed
          have "length (AList.delete (fst (s ! i)) s) - (i + 1) < length s - i"
            using i AList.length_delete_le [of "fst (s ! i)" s] by arith
          then have "\<exists>es s'. getAllEntries_loop dev (i + 1) acc (AList.delete (fst (s ! i)) s)
              = (Returns es, s')"
            by (rule less)
          then show ?thesis
            using Some Malformed by (simp add: loop_malformed [OF assms i pre])
        next
          case (Json e)
          then show ?thesis
            using step [of "acc @ [(fst (s ! i), e)]"] Some
            by (simp add: loop_entry [OF assms i pre])
        qed
      qed
    qed
  qed
qed

text \<open>
  A removal inside the loop makes the loop pass over the key that follows.
\<close>

lemma getAllEntries_corrupt: "getAllEntries permissive corrupt_store = (Returns [], [])"
proof -
  have nd: "\<not> denied permissive" by (simp add: permissive_def)
  have "getAllEntries_loop permissive 0 [] [(''thumbnail_a'', Malformed)]
      = getAllEntries_loop permissive (0 + 1) []
          (AList.delete (fst ([(''thumbnail_a'', Malformed)] ! 0)) [(''thumbnail_a'', Malformed)])"
    by (rule loop_malformed [OF nd]) (simp_all add: CACHE_PREFIX_def)
  also have "\<dots> = (Returns [], [])"
    using nd by (simp add: loop_end)
  finally show ?thesis
    by (simp add: getAllEntries_def corrupt_store_def)
qed

lemma getAllEntries_skips_after_removal:
  "getAllEntries permissive [(''thumbnail_a'', Malformed), (''thumbnail_b'', Malformed)]
     = (Returns [], [(''thumbnail_b'', Malformed)])"
proof -
  let ?s = "[(''thumbnail_a'', Malformed), (''thumbnail_b'', Malformed)]"
  have nd: "\<not> denied permissive" by (simp add: permissive_def)
  have "getAllEntries_loop permissive 0 [] ?s
      = getAllEntries_loop permissive (0 + 1) [] (AList.delete (fst (?s ! 0)) ?s)"
    by (rule loop_malformed [OF nd]) (simp_all add: CACHE_PREFIX_def)
  also have "\<dots> = (Returns [], [(''thumbnail_b'', Malformed)])"
    using nd by (simp add: loop_end)
  finally show ?thesis
    by (simp add: getAllEntries_def)
qed

subsection \<open>Entries under removal and update\<close>

lemma delete_filter: "AList.delete k s = filter (\<lambda>p. fst p \<noteq> k) s"
  by (induction s) auto

lemma removeAll_keys_ok:
  "\<not> denied dev \<Longrightarrow> removeAll_keys dev ks s = (Returns (), filter (\<lambda>p. fst p \<notin> set ks) s)"
proof (induction ks arbitrary: s)
  case Nil
  then show ?case by simp
next
  case (Cons k ks)
  have "filter (\<lambda>p. fst p \<notin> set ks) (filter (\<lambda>p. fst p \<noteq> k) s)
      = filter (\<lambda>p. fst p \<notin> set (k # ks)) s"
    by (induction s) auto
  then show ?case
    using Cons by (simp add: removeItem_def delete_filter)
qed

lemma foldl_add_sum: "foldl (\<lambda>t p. t + f p) (a::nat) xs = a + sum_list (map f xs)"
  by (induction xs arbitrary: a) simp_all

lemma totalSize_sum: "totalSize es = sum_list (map (\<lambda>p. size_bytes (snd p)) es)"
  by (simp add: totalSize_def foldl_add_sum)



lemma sum_filter_le: "sum_list (map f (filter P xs)) \<le> (sum_list (map f xs) :: nat)"
  by (induction xs) auto

lemma entries_of_filter:
  "entries_of (filter (\<lambda>p. fst p \<notin> K) s) = filter (\<lambda>p. fst p \<notin> K) (entries_of s)"
proof (induction s)
  case Nil
  then show ?case by simp
next
  case (Cons p s)
  obtain k v where p: "p = (k, v)" by (cases p)
  show ?case using Cons unfolding p by (cases v) simp_all
qed


lemma entries_of_map:
  "entries_of (map (\<lambda>i. (CACHE_PREFIX @ g i, Json (h i))) xs) = map (\<lambda>i. (CACHE_PREFIX @ g i, h i)) xs"
  by (induction xs) simp_all

lemma clean_filter: "clean s \<Longrightarrow> clean (filter P s)"
  by (simp add: clean_def distinct_map_filter list_all_iff)

lemma clean_map:
  assumes "distinct (map g xs)"
  shows "clean (map (\<lambda>i. (CACHE_PREFIX @ g i, Json (h i))) xs)"
proof -
  have "distinct (map ((@) CACHE_PREFIX) (map g xs))"
    using assms by (simp add: distinct_map inj_on_def)
  then have "distinct (map (\<lambda>i. CACHE_PREFIX @ g i) xs)"
    by (simp add: comp_def)
  then show ?thesis
    by (simp add: clean_def comp_def list_all_iff)
qed

lemma keys_entries_of: "fst ` set (entries_of s) \<subseteq> fst ` set s"
proof (induction s)
  case Nil
  then show ?case by simp
next
  case (Cons p s)
  obtain k v where p: "p = (k, v)" by (cases p)
  show ?case using Cons unfolding p by (cases v) auto
qed

lemma distinct_entries_of: "distinct (map fst s) \<Longrightarrow> distinct (map fst (entries_of s))"
proof (induction s)
  case Nil
  then show ?case by simp
next
  case (Cons p s)
  obtain k v where p: "p = (k, v)" by (cases p)
  have "k \<notin> fst ` set (entries_of s)"
    using Cons.prems keys_entries_of [of s] unfolding p by auto
  then show ?case using Cons unfolding p by (cases v) simp_all
qed

lemma entries_of_update:
  assumes "list_all (\<lambda>p. prefix CACHE_PREFIX (fst p) \<longrightarrow> is_entry (snd p)) s"
    and "prefix CACHE_PREFIX k"
  shows "entries_of (AList.update k (Json e) s) = AList.update k e (entries_of s)"
  using assms(1)
proof (induction s)
  case Nil
  then show ?case using assms(2) by simp
next
  case (Cons p s)
  obtain k' v' where p: "p = (k', v')" by (cases p)
  show ?case
  proof (cases "k' = k")
    case True
    then obtain e0 where "v' = Json e0"
      using Cons.prems assms(2) unfolding p by (cases v') simp_all
    then show ?thesis
      using True assms(2) unfolding p by simp
  next
    case False
    then show ?thesis
      using Cons unfolding p by (cases v') simp_all
  qed
qed

lemma clean_update: "clean s \<Longrightarrow> clean (AList.update k (Json e) s)"
proof -
  assume c: "clean s"
  have "list_all (\<lambda>p. prefix CACHE_PREFIX (fst p) \<longrightarrow> is_entry (snd p)) (AList.update k (Json e) s)"
    if "list_all (\<lambda>p. prefix CACHE_PREFIX (fst p) \<longrightarrow> is_entry (snd p)) s" for s :: items
    using that by (induction s) auto
  then show ?thesis
    using c by (simp add: clean_def AList.distinct_update)
qed

lemma length_alist_update: "length (AList.update k v xs) \<le> Suc (length xs)"
  by (induction xs) auto

lemma length_alist_update_new:
  "k \<notin> fst ` set xs \<Longrightarrow> AList.update k v xs = xs @ [(k, v)]"
  by (induction xs) auto

lemma sum_alist_update:
  "sum_list (map (\<lambda>p. f (snd p)) (AList.update k v xs)) \<le> sum_list (map (\<lambda>p. f (snd p)) xs) + (f v :: nat)"
  by (induction xs) auto

subsection \<open>Sorting by age\<close>

lemma order_clash:
  assumes "distinct xs" and "xs = v1 @ b # w" and "a \<in> set w" and "xs = l1 @ a # u" and "b \<in> set u"
  shows False
proof -
  obtain k where k: "k < length w" "w ! k = a"
    using assms(3) by (auto simp add: in_set_conv_nth)
  obtain k' where k': "k' < length u" "u ! k' = b"
    using assms(5) by (auto simp add: in_set_conv_nth)
  have "(v1 @ b # w) ! length v1 = b" by simp
  then have b1: "xs ! length v1 = b" unfolding assms(2) [symmetric] .
  have "(v1 @ b # w) ! (length v1 + Suc k) = a" using k by (simp add: nth_append)
  then have a1: "xs ! (length v1 + Suc k) = a" unfolding assms(2) [symmetric] .
  have "(l1 @ a # u) ! length l1 = a" by simp
  then have a2: "xs ! length l1 = a" unfolding assms(4) [symmetric] .
  have "(l1 @ a # u) ! (length l1 + Suc k') = b" using k' by (simp add: nth_append)
  then have b2: "xs ! (length l1 + Suc k') = b" unfolding assms(4) [symmetric] .
  have "length (v1 @ b # w) = length xs" using assms(2) by simp
  then have len1: "length v1 + Suc k < length xs" using k(1) by simp
  have "length (l1 @ a # u) = length xs" using assms(4) by simp
  then have len2: "length l1 + Suc k' < length xs" using k'(1) by simp
  have "length v1 + Suc k = length l1"
    using nth_eq_iff_index_eq [OF assms(1), of "length v1 + Suc k" "length l1"] a1 a2 len1 len2
    by simp
  moreover have "length l1 + Suc k' = length v1"
    using nth_eq_iff_index_eq [OF assms(1), of "length l1 + Suc k'" "length v1"] b1 b2 len1 len2
    by simp
  ultimately show False by simp
qed

lemma sorted_take_drop:
  assumes "v \<in> set (take m (sort_key f es))" and "p \<in> set (drop m (sort_key f es))"
  shows "f v \<le> f p"
proof -
  let ?srt = "sort_key f es"
  have "sorted (map f (take m ?srt @ drop m ?srt))" by simp
  then have "sorted (map f (take m ?srt) @ map f (drop m ?srt))"
    unfolding map_append .
  then have "\<forall>x\<in>set (map f (take m ?srt)). \<forall>y\<in>set (map f (drop m ?srt)). x \<le> y"
    unfolding sorted_append by blast
  then show ?thesis using assms by auto
qed

lemma take_sort_key_stable:
  assumes "distinct es" and "i < j" and "j < length es" and "f (es ! i) = f (es ! j)"
    and "es ! j \<in> set (take m (sort_key f es))"
  shows "es ! i \<in> set (take m (sort_key f es))"
proof (rule ccontr)
  let ?srt = "sort_key f es"
  let ?P = "\<lambda>y. f y = f (es ! i)"
  assume n: "es ! i \<notin> set (take m ?srt)"
  have i: "i < length es" using assms(2,3) by simp
  have "es ! i \<in> set (take m ?srt @ drop m ?srt)" using i by simp
  then have ad: "es ! i \<in> set (drop m ?srt)" using n by (simp only: set_append) blast
  have es: "es = take i es @ es ! i # drop (Suc i) es"
    using i by (rule id_take_nth_drop)
  have "es ! j = drop (Suc i) es ! (j - Suc i)"
    using assms(2,3) by simp
  then have "es ! j \<in> set (drop (Suc i) es)"
    using assms(2,3) by (metis diff_less_mono length_drop less_eq_Suc_le nth_mem)
  then have bu: "es ! j \<in> set (filter ?P (drop (Suc i) es))"
    using assms(4) by simp
  have fe: "filter ?P es = filter ?P (take i es) @ es ! i # filter ?P (drop (Suc i) es)"
    by (subst es) simp
  have "es ! j \<in> set (filter ?P (take m ?srt))"
    using assms(4,5) by simp
  then obtain v1 v2 where v: "filter ?P (take m ?srt) = v1 @ es ! j # v2"
    by (meson split_list)
  have fs: "filter ?P ?srt = filter ?P (take m ?srt) @ filter ?P (drop m ?srt)"
    by (metis append_take_drop_id filter_append)
  have "filter ?P ?srt = filter ?P es"
    by (rule sort_key_stable)
  then have eq: "filter ?P es = v1 @ es ! j # (v2 @ filter ?P (drop m ?srt))"
    using fs v by simp
  have "es ! i \<in> set (v2 @ filter ?P (drop m ?srt))"
    using ad by simp
  moreover have "distinct (filter ?P es)"
    using assms(1) by simp
  ultimately show False
    using order_clash [OF _ eq _ fe bu] by blast
qed

lemma length_filter_take_sorted:
  assumes "distinct es"
  shows "length (filter (\<lambda>p. p \<notin> set (take m (sort_key f es))) es) = length es - min m (length es)"
proof -
  let ?srt = "sort_key f es"
  let ?P = "\<lambda>p. p \<notin> set (take m ?srt)"
  have ds: "distinct ?srt" using assms by simp
  have "length (filter ?P es) = card ({x. ?P x} \<inter> set es)"
    using assms by (rule distinct_length_filter)
  also have "\<dots> = card ({x. ?P x} \<inter> set ?srt)" by simp
  also have "\<dots> = length (filter ?P ?srt)"
    using ds by (rule distinct_length_filter [symmetric])
  also have "filter ?P ?srt = filter ?P (take m ?srt) @ filter ?P (drop m ?srt)"
    by (metis append_take_drop_id filter_append)
  also have "filter ?P (take m ?srt) = []"
    by (simp add: filter_empty_conv)
  also have "filter ?P (drop m ?srt) = drop m ?srt"
  proof (rule filter_True)
    have "set (take m ?srt) \<inter> set (drop m ?srt) = {}"
      using ds by (metis append_take_drop_id distinct_append)
    then show "\<forall>x\<in>set (drop m ?srt). x \<notin> set (take m ?srt)" by blast
  qed
  finally show ?thesis by (simp add: min_def)
qed

lemma fst_notin_iff:
  assumes "distinct (map fst es)" and "set V \<subseteq> set es" and "p \<in> set es"
  shows "fst p \<notin> fst ` set V \<longleftrightarrow> p \<notin> set V"
proof
  assume "fst p \<notin> fst ` set V"
  then show "p \<notin> set V" by blast
next
  assume n: "p \<notin> set V"
  show "fst p \<notin> fst ` set V"
  proof
    assume "fst p \<in> fst ` set V"
    then obtain q where q: "q \<in> set V" "fst q = fst p" by force
    then have "q \<in> set es" using assms(2) by blast
    moreover have "inj_on fst (set es)"
      using assms(1) by (simp add: distinct_map)
    ultimately have "q = p"
      using assms(3) q(2) by (auto dest: inj_onD)
    then show False using q(1) n by simp
  qed
qed

subsection \<open>cleanup and cleanupIfNeeded\<close>

lemma cleanup_clean:
  "\<not> denied dev \<Longrightarrow> clean s \<Longrightarrow> cleanup dev c s = (Returns (), evict c s)"
  by (simp add: cleanup_def getAllEntries_clean removeAll_keys_ok Let_def evict_def victims_def)

lemma cleanup_denied: "denied dev \<Longrightarrow> cleanup dev c s = (Returns (), s)"
  by (simp add: cleanup_def getAllEntries_denied)

lemma cleanup_returns: "fst (cleanup dev c s) = Returns ()"
  by (simp add: cleanup_def Let_def split: prod.splits outcome.splits)

lemma victims_nonneg:
  "0 \<le> c \<Longrightarrow> victims c es = take (nat c) (sort_key (\<lambda>p. timestamp (snd p)) es)"
proof -
  assume c: "0 \<le> c"
  have "take (nat (min c (int (length es)))) (sort_key (\<lambda>p. timestamp (snd p)) es)
      = take (nat c) (sort_key (\<lambda>p. timestamp (snd p)) es)"
  proof (cases "c \<le> int (length es)")
    case True
    then show ?thesis by (simp add: min_def)
  next
    case False
    then show ?thesis by (simp add: min_def)
  qed
  then show ?thesis
    using c by (simp add: victims_def slice0_def)
qed

lemma set_victims: "set (victims c es) \<subseteq> set es"
proof -
  have "set (take m (sort_key (\<lambda>p. timestamp (snd p)) es)) \<subseteq> set es" for m
    using set_take_subset [of m "sort_key (\<lambda>p. timestamp (snd p)) es"] by simp
  then show ?thesis
    by (simp add: victims_def slice0_def)
qed

lemma victims_oldest:
  assumes "0 \<le> c" and "v \<in> set (victims c es)" and "p \<in> set es" and "p \<notin> set (victims c es)"
  shows "timestamp (snd v) \<le> timestamp (snd p)"
proof -
  let ?srt = "sort_key (\<lambda>p. timestamp (snd p)) es"
  have "p \<in> set (take (nat c) ?srt @ drop (nat c) ?srt)" using assms(3) by simp
  then have "p \<in> set (drop (nat c) ?srt)"
    using assms(4) unfolding victims_nonneg [OF assms(1)] by (simp only: set_append) blast
  then show ?thesis
    using assms(2) sorted_take_drop [of v "nat c" "\<lambda>p. timestamp (snd p)" es p]
    unfolding victims_nonneg [OF assms(1)] by simp
qed

lemma clean_evict: "clean s \<Longrightarrow> clean (evict c s)"
  by (simp add: evict_def clean_filter)

lemma entries_of_evict:
  "entries_of (evict c s)
     = filter (\<lambda>p. fst p \<notin> fst ` set (victims c (entries_of s))) (entries_of s)"
  by (simp add: evict_def entries_of_filter)

lemma entries_of_evict':
  assumes "clean s"
  shows "entries_of (evict c s) = filter (\<lambda>p. p \<notin> set (victims c (entries_of s))) (entries_of s)"
proof -
  have d: "distinct (map fst (entries_of s))"
    using assms by (simp add: clean_def distinct_entries_of)
  show ?thesis
    unfolding entries_of_evict
    by (rule filter_cong [OF refl]) (rule fst_notin_iff [OF d set_victims])
qed

lemma count_after_evict:
  assumes "clean s" and "0 \<le> c"
  shows "length (entries_of (evict c s))
     = length (entries_of s) - min (nat c) (length (entries_of s))"
proof -
  have "distinct (map fst (entries_of s))"
    using assms(1) by (simp add: clean_def distinct_entries_of)
  then have "distinct (entries_of s)" by (simp add: distinct_map)
  then show ?thesis
    unfolding entries_of_evict' [OF assms(1)] victims_nonneg [OF assms(2)]
    by (rule length_filter_take_sorted)
qed

lemma count_evict_le: "length (entries_of (evict c s)) \<le> length (entries_of s)"
  by (simp add: entries_of_evict)

lemma totalSize_evict_le: "totalSize (entries_of (evict c s)) \<le> totalSize (entries_of s)"
  by (simp add: entries_of_evict totalSize_sum sum_filter_le)

lemma removeCount_nonneg: "0 \<le> removeCount n"
  by (simp add: removeCount_def)

lemma removeCount_ge: "int n - 90 \<le> removeCount n"
  by (simp add: removeCount_def MAX_CACHE_ITEMS_def)

lemma removeCount_le: "removeCount n \<le> int n"
  by (simp add: removeCount_def MAX_CACHE_ITEMS_def)

lemma removeCount_ceiling: "removeCount n = max (int n - 100 + 10) \<lceil>real n * 0.2\<rceil>"
proof -
  have "\<lceil>real n * 0.2\<rceil> = int ((n + 4) div 5)"
  proof (rule ceiling_unique)
    show "real_of_int (int ((n + 4) div 5)) - 1 < real n * 0.2"
      by (simp add: field_simps)
    show "real n * 0.2 \<le> real_of_int (int ((n + 4) div 5))"
      by (simp add: field_simps)
  qed
  then show ?thesis
    by (simp add: removeCount_def MAX_CACHE_ITEMS_def)
qed


lemma cleanupIfNeeded_clean:
  "\<not> denied dev \<Longrightarrow> clean s \<Longrightarrow> cleanupIfNeeded dev s = (Returns (), after_check s)"
  by (simp add: cleanupIfNeeded_def getAllEntries_clean cleanup_clean after_check_def over_limit_def)

lemma cleanupIfNeeded_denied: "denied dev \<Longrightarrow> cleanupIfNeeded dev s = (Throws SecurityError, s)"
  by (simp add: cleanupIfNeeded_def getAllEntries_denied)

lemma cleanupIfNeeded_returns: "\<not> denied dev \<Longrightarrow> fst (cleanupIfNeeded dev s) = Returns ()"
proof -
  assume "\<not> denied dev"
  then obtain es s' where "getAllEntries dev s = (Returns es, s')"
    unfolding getAllEntries_def using loop_returns by blast
  then show ?thesis
    using cleanup_returns [of dev "removeCount (length es)" s']
    by (simp add: cleanupIfNeeded_def)
qed

lemma clean_after_check: "clean s \<Longrightarrow> clean (after_check s)"
  by (simp add: after_check_def clean_evict)

lemma count_after_check:
  assumes "clean s"
  shows "length (entries_of (after_check s)) \<le> 100"
proof (cases "over_limit s")
  case False
  then show ?thesis
    by (simp add: after_check_def over_limit_def MAX_CACHE_ITEMS_def)
next
  case True
  let ?n = "length (entries_of s)"
  have "length (entries_of (after_check s)) = ?n - min (nat (removeCount ?n)) ?n"
    using True count_after_evict [OF assms removeCount_nonneg] by (simp add: after_check_def)
  moreover have "int ?n - 90 \<le> removeCount ?n"
    by (rule removeCount_ge)
  ultimately show ?thesis
    by (simp add: min_def split: if_splits)
qed

lemma totalSize_after_check_le: "totalSize (entries_of (after_check s)) \<le> totalSize (entries_of s)"
  by (simp add: after_check_def totalSize_evict_le)


subsection \<open>set\<close>

lemma setItem_rejected:
  "fst (setItem dev key v s) = Throws QuotaExceededError
     \<longleftrightarrow> \<not> denied dev \<and> \<not> quota_ok dev (AList.update key v s)"
  by (simp add: setItem_def)

lemma set_retry_clean:
  assumes "\<not> denied dev" and "clean s"
  shows "set_retry dev now modelId url s
     = (Returns (), if quota_ok dev (AList.update (CACHE_PREFIX @ modelId) (entry_at now url) (evict 10 s))
                    then AList.update (CACHE_PREFIX @ modelId) (entry_at now url) (evict 10 s)
                    else evict 10 s)"
  using assms
  by (simp add: set_retry_def cleanup_clean setItem_def JSON_stringify_def entry_at_def)

lemma set_cache_clean:
  assumes "\<not> denied dev" and "clean s"
  shows "set_cache dev now now_retry modelId url s = (Returns (), after_set dev now now_retry modelId url s)"
proof -
  have c1: "clean (after_check s)"
    using assms(2) by (rule clean_after_check)
  show ?thesis
    using assms(1)
    by (simp add: set_cache_def cleanupIfNeeded_clean [OF assms] setItem_def
        set_retry_clean [OF assms(1) c1] after_set_def Let_def JSON_stringify_def entry_at_def)
qed

lemma set_retry_on_clean_storage:
  fixes now_retry :: int
  assumes "clean s"
    and "fst (setItem dev (CACHE_PREFIX @ modelId)
               (JSON_stringify \<lparr>dataUrl = url, timestamp = now, size_bytes = length url\<rparr>)
               (snd (cleanupIfNeeded dev s))) = Throws QuotaExceededError"
  defines "s1 \<equiv> snd (cleanupIfNeeded dev s)"
  defines "oldest \<equiv> take 10 (sort_key (\<lambda>p. timestamp (snd p)) (entries_of s1))"
  defines "s2 \<equiv> filter (\<lambda>p. fst p \<notin> fst ` set oldest) s1"
  defines "retry \<equiv> setItem dev (CACHE_PREFIX @ modelId)
               (JSON_stringify \<lparr>dataUrl = url, timestamp = now_retry, size_bytes = length url\<rparr>) s2"
  shows "cleanup dev 10 s1 = (Returns (), s2)
       \<and> length oldest = min 10 (length (entries_of s1))
       \<and> entries_of s2 = filter (\<lambda>p. p \<notin> set oldest) (entries_of s1)
       \<and> (\<forall>v\<in>set oldest. \<forall>p\<in>set (entries_of s2). timestamp (snd v) \<le> timestamp (snd p))
       \<and> set_cache dev now now_retry modelId url s = (Returns (), snd retry)
       \<and> (fst retry \<noteq> Returns () \<longrightarrow> set_cache dev now now_retry modelId url s = (Returns (), s2))"
proof -
  have nd: "\<not> denied dev"
    using assms(2) unfolding setItem_rejected by simp
  have s1: "s1 = after_check s"
    unfolding s1_def by (simp add: cleanupIfNeeded_clean [OF nd assms(1)])
  have c1: "clean s1"
    unfolding s1 using assms(1) by (rule clean_after_check)
  have ol: "oldest = victims 10 (entries_of s1)"
    unfolding oldest_def by (simp add: victims_nonneg)
  have s2: "s2 = evict 10 s1"
    unfolding s2_def ol evict_def ..
  have rej: "\<not> quota_ok dev (AList.update (CACHE_PREFIX @ modelId) (entry_at now url) s1)"
    using assms(2) unfolding s1_def [symmetric] setItem_rejected entry_at_def JSON_stringify_def
    by simp
  have 1: "cleanup dev 10 s1 = (Returns (), s2)"
    unfolding s2 by (rule cleanup_clean [OF nd c1])
  have 2: "length oldest = min 10 (length (entries_of s1))"
    unfolding oldest_def by (simp add: min.commute)
  have 3: "entries_of s2 = filter (\<lambda>p. p \<notin> set oldest) (entries_of s1)"
    unfolding s2 ol by (rule entries_of_evict' [OF c1])
  have 4: "\<forall>v\<in>set oldest. \<forall>p\<in>set (entries_of s2). timestamp (snd v) \<le> timestamp (snd p)"
    unfolding 3 ol using victims_oldest [of 10] by simp
  have 5: "set_cache dev now now_retry modelId url s = (Returns (), snd retry)"
    using rej nd
    unfolding set_cache_clean [OF nd assms(1)] after_set_def retry_def s2 s1 [symmetric]
    by (simp add: Let_def setItem_def entry_at_def JSON_stringify_def)
  have 6: "fst retry \<noteq> Returns () \<longrightarrow> set_cache dev now now_retry modelId url s = (Returns (), s2)"
    unfolding 5 retry_def by (simp add: setItem_def)
  show ?thesis
    using 1 2 3 4 5 6 by blast
qed

lemma set_cache_denied:
  "denied dev \<Longrightarrow> set_cache dev now now_retry modelId url s = (Returns (), s)"
  by (simp add: set_cache_def cleanupIfNeeded_denied set_retry_def cleanup_denied setItem_def)

lemma set_cache_snd: "clean s \<Longrightarrow> snd (set_cache dev now now_retry modelId url s)
    = (if denied dev then s else after_set dev now now_retry modelId url s)"
  by (simp add: set_cache_clean set_cache_denied)

lemma set_cache_accepted:
  assumes "\<not> denied dev"
    and "fst (setItem dev (CACHE_PREFIX @ modelId) (entry_at now url) (snd (cleanupIfNeeded dev s)))
           = Returns ()"
  shows "set_cache dev now now_retry modelId url s
     = (Returns (), AList.update (CACHE_PREFIX @ modelId) (entry_at now url) (snd (cleanupIfNeeded dev s)))"
proof -
  obtain s1 where s1: "cleanupIfNeeded dev s = (Returns (), s1)"
    using cleanupIfNeeded_returns [OF assms(1), of s] by (cases "cleanupIfNeeded dev s") simp
  have "setItem dev (CACHE_PREFIX @ modelId) (entry_at now url) s1
      = (Returns (), AList.update (CACHE_PREFIX @ modelId) (entry_at now url) s1)"
    using assms(2) unfolding s1 by (simp add: setItem_def split: if_splits)
  then show ?thesis
    by (simp add: set_cache_def s1 entry_at_def JSON_stringify_def)
qed

lemma set_cache_retry_accepted:
  assumes "\<not> denied dev"
    and "fst (setItem dev (CACHE_PREFIX @ modelId) (entry_at now url) (snd (cleanupIfNeeded dev s)))
           \<noteq> Returns ()"
    and "fst (setItem dev (CACHE_PREFIX @ modelId) (entry_at now_retry url)
               (snd (cleanup dev 10 (snd (cleanupIfNeeded dev s))))) = Returns ()"
  shows "set_cache dev now now_retry modelId url s
     = (Returns (), AList.update (CACHE_PREFIX @ modelId) (entry_at now_retry url)
          (snd (cleanup dev 10 (snd (cleanupIfNeeded dev s)))))"
proof -
  obtain s1 where s1: "cleanupIfNeeded dev s = (Returns (), s1)"
    using cleanupIfNeeded_returns [OF assms(1), of s] by (cases "cleanupIfNeeded dev s") simp
  obtain s2 where s2: "cleanup dev 10 s1 = (Returns (), s2)"
    using cleanup_returns [of dev 10 s1] by (cases "cleanup dev 10 s1") simp
  have first: "setItem dev (CACHE_PREFIX @ modelId) (entry_at now url) s1
      = (Throws QuotaExceededError, s1)"
    using assms(1,2) unfolding s1 by (simp add: setItem_def split: if_splits)
  have second: "setItem dev (CACHE_PREFIX @ modelId) (entry_at now_retry url) s2
      = (Returns (), AList.update (CACHE_PREFIX @ modelId) (entry_at now_retry url) s2)"
    using assms(3) unfolding s1 by (simp add: s2 setItem_def split: if_splits)
  show ?thesis
    using first second
    by (simp add: set_cache_def set_retry_def s1 s2 entry_at_def JSON_stringify_def)
qed


lemma entries_of_store:
  assumes "clean s"
  shows "entries_of (AList.update (CACHE_PREFIX @ modelId) (entry_at now url) s)
     = AList.update (CACHE_PREFIX @ modelId)
         \<lparr>dataUrl = url, timestamp = now, size_bytes = length url\<rparr> (entries_of s)"
  using assms unfolding entry_at_def clean_def
  by (intro entries_of_update) simp_all

lemma count_store:
  assumes "clean s"
  shows "length (entries_of (AList.update (CACHE_PREFIX @ modelId) (entry_at now url) s))
     \<le> Suc (length (entries_of s))"
  unfolding entries_of_store [OF assms] by (rule length_alist_update)

lemma totalSize_store:
  assumes "clean s"
  shows "totalSize (entries_of (AList.update (CACHE_PREFIX @ modelId) (entry_at now url) s))
     \<le> totalSize (entries_of s) + length url"
  unfolding entries_of_store [OF assms] totalSize_sum
  using sum_alist_update [of size_bytes "CACHE_PREFIX @ modelId"
      "\<lparr>dataUrl = url, timestamp = now, size_bytes = length url\<rparr>" "entries_of s"]
  by simp

lemma clean_store: "clean s \<Longrightarrow> clean (AList.update k (entry_at now url) s)"
  by (simp add: entry_at_def clean_update)

lemma clean_after_set: "clean s \<Longrightarrow> clean (after_set dev now now_retry modelId url s)"
  by (simp add: after_set_def Let_def clean_store clean_evict clean_after_check)

lemma count_after_set:
  assumes "clean s"
  shows "length (entries_of (after_set dev now now_retry modelId url s)) \<le> 101"
proof -
  let ?s1 = "after_check s"
  have c1: "clean ?s1" using assms by (rule clean_after_check)
  have c2: "clean (evict 10 ?s1)" using c1 by (rule clean_evict)
  have n1: "length (entries_of ?s1) \<le> 100" using assms by (rule count_after_check)
  have n2: "length (entries_of (evict 10 ?s1)) \<le> 100"
    using count_evict_le [of 10 ?s1] n1 by simp
  show ?thesis
    using count_store [OF c1, of modelId now url] count_store [OF c2, of modelId now_retry url] n1 n2
    by (simp add: after_set_def Let_def)
qed

lemma totalSize_after_set:
  assumes "clean s"
  shows "totalSize (entries_of (after_set dev now now_retry modelId url s))
     \<le> totalSize (entries_of s) + length url"
proof -
  let ?s1 = "after_check s"
  have c1: "clean ?s1" using assms by (rule clean_after_check)
  have c2: "clean (evict 10 ?s1)" using c1 by (rule clean_evict)
  have t1: "totalSize (entries_of ?s1) \<le> totalSize (entries_of s)"
    by (rule totalSize_after_check_le)
  have t2: "totalSize (entries_of (evict 10 ?s1)) \<le> totalSize (entries_of s)"
    using totalSize_evict_le [of 10 ?s1] t1 by simp
  show ?thesis
    using totalSize_store [OF c1, of modelId now url] totalSize_store [OF c2, of modelId now_retry url] t1 t2
    by (simp add: after_set_def Let_def)
qed

lemma clean_set_cache: "clean s \<Longrightarrow> clean (snd (set_cache dev now now_retry modelId url s))"
  by (simp add: set_cache_snd clean_after_set)

lemma totalSize_set_cache:
  assumes "clean s"
  shows "totalSize (entries_of (snd (set_cache dev now now_retry modelId url s)))
     \<le> totalSize (entries_of s) + length url"
  using assms totalSize_after_set [OF assms] by (simp add: set_cache_snd)

lemma clean_run_sets: "clean s \<Longrightarrow> clean (run_sets calls s)"
proof (induction calls arbitrary: s)
  case Nil
  then show ?case by simp
next
  case (Cons c calls)
  obtain dev now now_retry modelId url where c: "c = (dev, now, now_retry, modelId, url)"
    by (cases c)
  show ?case
    unfolding c using Cons by (simp add: clean_set_cache)
qed

lemma run_sets_append: "run_sets (xs @ ys) s = run_sets ys (run_sets xs s)"
proof (induction xs arbitrary: s)
  case Nil
  then show ?case by simp
next
  case (Cons c xs)
  obtain dev now now_retry modelId url where c: "c = (dev, now, now_retry, modelId, url)"
    by (cases c)
  show ?case unfolding c using Cons by simp
qed

lemma count_run_sets:
  assumes "clean s" and "length (entries_of s) \<le> 101"
  shows "length (entries_of (run_sets calls s)) \<le> 101"
  using assms
proof (induction calls arbitrary: s)
  case Nil
  then show ?case by simp
next
  case (Cons c calls)
  obtain dev now now_retry modelId url where c: "c = (dev, now, now_retry, modelId, url)"
    by (cases c)
  let ?s' = "snd (set_cache dev now now_retry modelId url s)"
  have "clean ?s'" using Cons.prems(1) by (rule clean_set_cache)
  moreover have "length (entries_of ?s') \<le> 101"
    using Cons.prems count_after_set [OF Cons.prems(1)] by (simp add: set_cache_snd)
  ultimately show ?case
    unfolding c using Cons.IH by simp
qed

subsection \<open>get\<close>

lemma get_entry:
  assumes "\<not> denied dev" and "map_of s (CACHE_PREFIX @ modelId) = Some (Json e)"
  shows "get dev now modelId s
     = (if now - timestamp e > maxAge then (Returns None, AList.delete (CACHE_PREFIX @ modelId) s)
        else (Returns (Some (dataUrl e)), s))"
  using assms by (simp add: get_def getItem_def removeItem_def)

lemma get_after_retried_set:
  assumes "\<not> denied dev"
    and "fst (setItem dev (CACHE_PREFIX @ modelId) (entry_at T url) (snd (cleanupIfNeeded dev s)))
           \<noteq> Returns ()"
    and "fst (setItem dev (CACHE_PREFIX @ modelId) (entry_at T_retry url)
               (snd (cleanup dev 10 (snd (cleanupIfNeeded dev s))))) = Returns ()"
  shows "get dev now modelId (snd (set_cache dev T T_retry modelId url s))
     = (if now \<le> T_retry + maxAge
        then (Returns (Some url), snd (set_cache dev T T_retry modelId url s))
        else (Returns None,
              AList.delete (CACHE_PREFIX @ modelId) (snd (set_cache dev T T_retry modelId url s))))"
proof -
  let ?s' = "snd (set_cache dev T T_retry modelId url s)"
  have "map_of ?s' (CACHE_PREFIX @ modelId)
      = Some (Json \<lparr>dataUrl = url, timestamp = T_retry, size_bytes = length url\<rparr>)"
    unfolding set_cache_retry_accepted [OF assms]
    by (simp add: AList.update_conv' entry_at_def)
  from get_entry [OF assms(1) this, of now] show ?thesis
    by (simp add: not_less)
qed

lemma get_malformed:
  "map_of s (CACHE_PREFIX @ modelId) = Some Malformed \<Longrightarrow> get dev now modelId s = (Returns None, s)"
  by (simp add: get_def getItem_def Let_def)

lemma get_returns: "\<exists>r. fst (get dev now modelId s) = Returns r"
  by (simp add: get_def Let_def split: outcome.splits option.splits stored.splits sum.splits prod.splits)

subsection \<open>Which methods can throw\<close>

lemma set_retry_returns: "fst (set_retry dev now modelId url s) = Returns ()"
proof -
  obtain s1 where "cleanup dev 10 s = (Returns (), s1)"
    using cleanup_returns [of dev 10 s] by (cases "cleanup dev 10 s") simp
  then show ?thesis
    by (simp add: set_retry_def split: prod.splits outcome.splits)
qed

lemma set_cache_returns: "fst (set_cache dev now now_retry modelId url s) = Returns ()"
  by (simp add: set_cache_def set_retry_returns split: prod.splits outcome.splits)

lemma remove_returns: "fst (remove dev modelId s) = Returns ()"
  by (simp add: remove_def split: prod.splits outcome.splits)

lemma clear_returns: "fst (clear dev s) = Returns ()"
  by (simp add: clear_def split: prod.splits outcome.splits)

lemma has_returns: "\<exists>b. fst (has dev now modelId s) = Returns b"
proof -
  obtain r s1 where "get dev now modelId s = (Returns r, s1)"
    using get_returns [of dev now modelId s] by (cases "get dev now modelId s") auto
  then show ?thesis
    by (simp add: has_def)
qed

lemma other_operations_never_throw:
  "fst (set_cache dev now now_retry modelId url s) = Returns ()
   \<and> (\<exists>r. fst (get dev now modelId s) = Returns r)
   \<and> fst (remove dev modelId s) = Returns ()
   \<and> fst (clear dev s) = Returns ()
   \<and> fst (cleanup dev c s) = Returns ()
   \<and> (\<exists>b. fst (has dev now modelId s) = Returns b)"
  by (intro conjI set_cache_returns get_returns remove_returns clear_returns cleanup_returns
      has_returns)

lemma getStats_denied: "denied dev \<Longrightarrow> getStats dev s = (Throws SecurityError, s)"
  by (simp add: getStats_def getAllEntries_denied)

lemma getStats_returns_unless_denied: "\<not> denied dev \<Longrightarrow> \<exists>st. fst (getStats dev s) = Returns st"
proof -
  assume "\<not> denied dev"
  then obtain es s' where "getAllEntries dev s = (Returns es, s')"
    unfolding getAllEntries_def using loop_returns by blast
  then show ?thesis
    by (simp add: getStats_def)
qed

subsection \<open>The storages of the examples\<close>

lemma fresh_store_entries:
  "entries_of (fresh_store n)
     = map (\<lambda>i. (CACHE_PREFIX @ fresh_id i, \<lparr>dataUrl = ''x'', timestamp = int i, size_bytes = 1\<rparr>)) [0..<n]"
  unfolding fresh_store_def entry_at_def
  using entries_of_map [of fresh_id "\<lambda>i. \<lparr>dataUrl = ''x'', timestamp = int i, size_bytes = length ''x''\<rparr>" "[0..<n]"]
  by simp

lemma fresh_store_clean: "clean (fresh_store n)"
proof -
  have "distinct (map fresh_id [0..<n])"
    by (simp add: distinct_map inj_on_def fresh_id_def)
  then show ?thesis
    unfolding fresh_store_def entry_at_def by (rule clean_map)
qed

lemma fresh_store_count: "length (entries_of (fresh_store n)) = n"
  by (simp add: fresh_store_entries)

lemma fresh_store_size: "totalSize (entries_of (fresh_store n)) = n"
  by (simp add: fresh_store_entries totalSize_sum comp_def sum_list_triv)

lemma fresh_store_Suc:
  "AList.update (CACHE_PREFIX @ fresh_id n) (entry_at (int n) ''x'') (fresh_store n) = fresh_store (Suc n)"
proof -
  have "CACHE_PREFIX @ fresh_id n \<notin> fst ` set (fresh_store n)"
    by (auto simp add: fresh_store_def fresh_id_def)
  then show ?thesis
    by (simp add: length_alist_update_new fresh_store_def)
qed

lemma set_fresh:
  assumes "n \<le> 100"
  shows "snd (set_cache permissive (int n) (int n) (fresh_id n) ''x'' (fresh_store n)) = fresh_store (Suc n)"
proof -
  have "\<not> over_limit (fresh_store n)"
    using assms by (simp add: over_limit_def fresh_store_count fresh_store_size
        MAX_CACHE_ITEMS_def MAX_CACHE_SIZE_def)
  then have "after_check (fresh_store n) = fresh_store n"
    by (simp add: after_check_def)
  then have "after_set permissive (int n) (int n) (fresh_id n) ''x'' (fresh_store n) = fresh_store (Suc n)"
    by (simp add: after_set_def permissive_def fresh_store_Suc)
  then show ?thesis
    by (simp add: set_cache_snd fresh_store_clean permissive_def)
qed

lemma run_fresh: "n \<le> 101 \<Longrightarrow> run_sets (fresh_calls n) [] = fresh_store n"
proof (induction n)
  case 0
  then show ?case by (simp add: fresh_calls_def fresh_store_def)
next
  case (Suc n)
  then have n: "n \<le> 100" by simp
  have "fresh_calls (Suc n) = fresh_calls n @ [(permissive, int n, int n, fresh_id n, ''x'')]"
    by (simp add: fresh_calls_def)
  then show ?case
    using Suc set_fresh [OF n] by (simp add: run_sets_append)
qed

lemma length_big_payload: "length big_payload = 30000000"
  by (simp add: big_payload_def)

lemma tie_store_clean: "clean tie_store"
  by (simp add: tie_store_def clean_def entry_at_def CACHE_PREFIX_def)

lemma tie_store_entries:
  "entries_of tie_store
     = [(''thumbnail_b'', \<lparr>dataUrl = big_payload, timestamp = 5, size_bytes = 30000000\<rparr>),
        (''thumbnail_a'', \<lparr>dataUrl = big_payload, timestamp = 5, size_bytes = 30000000\<rparr>)]"
  by (simp add: tie_store_def entry_at_def CACHE_PREFIX_def length_big_payload)

lemma tie_store_over: "MAX_CACHE_SIZE < totalSize (entries_of tie_store)"
  by (simp add: tie_store_entries totalSize_def MAX_CACHE_SIZE_def)

lemma run_tie_two: "run_sets [(permissive, 5, 5, ''b'', big_payload), (permissive, 5, 5, ''a'', big_payload)] []
    = tie_store"
proof -
  have c0: "clean []" by (simp add: clean_def)
  have s1: "snd (set_cache permissive 5 5 ''b'' big_payload []) = [(''thumbnail_b'', entry_at 5 big_payload)]"
    by (simp add: set_cache_snd [OF c0] permissive_def after_set_def after_check_def over_limit_def
        totalSize_def CACHE_PREFIX_def)
  have c1: "clean [(''thumbnail_b'', entry_at 5 big_payload)]"
    by (simp add: clean_def entry_at_def CACHE_PREFIX_def)
  have e1: "entries_of [(''thumbnail_b'', entry_at 5 big_payload)]
      = [(''thumbnail_b'', \<lparr>dataUrl = big_payload, timestamp = 5, size_bytes = 30000000\<rparr>)]"
    by (simp add: entry_at_def CACHE_PREFIX_def length_big_payload)
  have s2: "snd (set_cache permissive 5 5 ''a'' big_payload [(''thumbnail_b'', entry_at 5 big_payload)])
      = tie_store"
    by (simp add: set_cache_snd [OF c1] permissive_def after_set_def after_check_def over_limit_def e1
        totalSize_def CACHE_PREFIX_def MAX_CACHE_SIZE_def MAX_CACHE_ITEMS_def tie_store_def)
  show ?thesis
    by (simp add: s1 s2)
qed

lemma set_exceeds_size_cap:
  "\<not> totalSize (entries_of (run_sets
        [(permissive, 5, 5, ''b'', big_payload), (permissive, 5, 5, ''a'', big_payload)] []))
      \<le> MAX_CACHE_SIZE"
  unfolding run_tie_two using tie_store_over by simp

lemma getAllEntries_dirty:
  assumes "\<not> denied dev"
  shows "getAllEntries dev dirty_store
     = (Returns [(''thumbnail_c'', \<lparr>dataUrl = ''x'', timestamp = 1, size_bytes = 1\<rparr>),
                 (''thumbnail_d'', \<lparr>dataUrl = ''y'', timestamp = 2, size_bytes = 1\<rparr>)],
        [(''thumbnail_b'', Malformed), (''thumbnail_c'', entry_at 1 ''x''),
         (''thumbnail_d'', entry_at 2 ''y'')])"
proof -
  let ?c = "\<lparr>dataUrl = ''x'', timestamp = 1, size_bytes = 1\<rparr>"
  let ?d = "\<lparr>dataUrl = ''y'', timestamp = 2, size_bytes = 1\<rparr>"
  let ?s1 = "[(''thumbnail_b'', Malformed), (''thumbnail_c'', Json ?c), (''thumbnail_d'', Json ?d)]"
  let ?s0 = "(''thumbnail_a'', Malformed) # ?s1"
  have "getAllEntries_loop dev 0 [] ?s0
      = getAllEntries_loop dev (0 + 1) [] (AList.delete (fst (?s0 ! 0)) ?s0)"
    by (rule loop_malformed [OF assms]) (simp_all add: CACHE_PREFIX_def)
  also have "\<dots> = getAllEntries_loop dev 1 [] ?s1"
    by simp
  also have "\<dots> = getAllEntries_loop dev (1 + 1) ([] @ [(fst (?s1 ! 1), ?c)]) ?s1"
    by (rule loop_entry [OF assms]) (simp_all add: CACHE_PREFIX_def)
  also have "\<dots> = getAllEntries_loop dev 2 [(''thumbnail_c'', ?c)] ?s1"
    by (simp add: numeral_2_eq_2)
  also have "\<dots> = getAllEntries_loop dev (2 + 1) ([(''thumbnail_c'', ?c)] @ [(fst (?s1 ! 2), ?d)]) ?s1"
    by (rule loop_entry [OF assms]) (simp_all add: CACHE_PREFIX_def)
  also have "\<dots> = getAllEntries_loop dev 3 [(''thumbnail_c'', ?c), (''thumbnail_d'', ?d)] ?s1"
    by simp
  also have "\<dots> = (Returns [(''thumbnail_c'', ?c), (''thumbnail_d'', ?d)], ?s1)"
    by (rule loop_end [OF assms]) simp
  finally show ?thesis
    by (simp add: getAllEntries_def dirty_store_def entry_at_def)
qed

lemma getAllEntries_dirty_rest:
  assumes "\<not> denied dev"
  shows "getAllEntries dev [(''thumbnail_b'', Malformed), (''thumbnail_c'', entry_at 1 ''x''),
                             (''thumbnail_d'', entry_at 2 ''y'')]
     = (Returns [(''thumbnail_d'', \<lparr>dataUrl = ''y'', timestamp = 2, size_bytes = 1\<rparr>)],
        [(''thumbnail_c'', entry_at 1 ''x''), (''thumbnail_d'', entry_at 2 ''y'')])"
proof -
  let ?c = "\<lparr>dataUrl = ''x'', timestamp = 1, size_bytes = 1\<rparr>"
  let ?d = "\<lparr>dataUrl = ''y'', timestamp = 2, size_bytes = 1\<rparr>"
  let ?s2 = "[(''thumbnail_c'', Json ?c), (''thumbnail_d'', Json ?d)]"
  let ?s1 = "(''thumbnail_b'', Malformed) # ?s2"
  have "getAllEntries_loop dev 0 [] ?s1
      = getAllEntries_loop dev (0 + 1) [] (AList.delete (fst (?s1 ! 0)) ?s1)"
    by (rule loop_malformed [OF assms]) (simp_all add: CACHE_PREFIX_def)
  also have "\<dots> = getAllEntries_loop dev 1 [] ?s2"
    by simp
  also have "\<dots> = getAllEntries_loop dev (1 + 1) ([] @ [(fst (?s2 ! 1), ?d)]) ?s2"
    by (rule loop_entry [OF assms]) (simp_all add: CACHE_PREFIX_def)
  also have "\<dots> = getAllEntries_loop dev 2 [(''thumbnail_d'', ?d)] ?s2"
    by (simp add: numeral_2_eq_2)
  also have "\<dots> = (Returns [(''thumbnail_d'', ?d)], ?s2)"
    by (rule loop_end [OF assms]) simp
  finally show ?thesis
    by (simp add: getAllEntries_def entry_at_def)
qed

lemma full_cache_as_written:
  "full_cache = map (\<lambda>i. (CACHE_PREFIX @ fresh_id i, entry_at (int i) half_mib_payload)) [0..<100]"
  unfolding full_cache_def entry_at_def half_mib_payload_def
  by (simp only: length_replicate)






subsection \<open>The arithmetic of doubles\<close>

lemma round_half_even_int: "round_half_even (of_int n) = n"
  by (simp add: round_half_even_def)

lemma round_double_binade:
  assumes "2 powr of_int k \<le> \<bar>x\<bar>" and "\<bar>x\<bar> < 2 powr (of_int k + 1)"
  shows "round_double x
     = of_int (round_half_even (x * 2 powr (52 - of_int k))) * 2 powr (of_int k - 52)"
proof -
  have pos: "0 < \<bar>x\<bar>"
    using assms(1) by (smt (verit) powr_gt_zero)
  then have x: "x \<noteq> 0" by simp
  have "of_int k \<le> log 2 \<bar>x\<bar>"
    using assms(1) pos by (simp add: le_log_iff)
  moreover have "log 2 \<bar>x\<bar> < of_int k + 1"
    using assms(2) pos by (simp add: log_less_iff)
  ultimately have e: "\<lfloor>log 2 \<bar>x\<bar>\<rfloor> = k"
    by (rule floor_unique)
  have "x / 2 powr (of_int k - 52) = x * 2 powr (52 - of_int k)"
    by (simp add: powr_diff field_simps)
  then show ?thesis
    using x by (simp add: round_double_def e Let_def)
qed

lemma round_double_exact:
  assumes "2 powr of_int k \<le> \<bar>x\<bar>" and "\<bar>x\<bar> < 2 powr (of_int k + 1)"
    and "x * 2 powr (52 - of_int k) = of_int n"
  shows "round_double x = x"
proof -
  have "round_double x = of_int n * 2 powr (of_int k - 52)"
    unfolding round_double_binade [OF assms(1,2)] assms(3) round_half_even_int ..
  also have "\<dots> = x * (2 powr (52 - of_int k) * 2 powr (of_int k - 52))"
    unfolding assms(3) [symmetric] by simp
  also have "2 powr (52 - of_int k) * 2 powr (of_int k - 52) = (1::real)"
    by (simp flip: powr_add)
  finally show ?thesis by simp
qed


lemma rd_1: "round_double 1 = 1"
  using round_double_exact [of 0 1 "2 ^ 52"] by simp

lemma rd_400: "round_double 400 = 400"
  using round_double_exact [of 8 400 "400 * 2 ^ 44"] by simp

lemma rd_200: "round_double 200 = 200"
  using round_double_exact [of 7 200 "200 * 2 ^ 45"] by simp


lemma rd_0: "round_double 0 = 0"
  by (simp add: round_double_def)


text \<open>
  An image of 11 by 11 pixels: the quotient 400 / 11 is rounded upwards, the scaled side is
  400.00000000000006, and the offsets are negative.
\<close>

lemma rd_scale_11: "round_double (400 / 11) = 5117726849284655 / 2 ^ 47"
proof -
  have "round_half_even (400 / 11 * 2 ^ 47) = 5117726849284655"
    by (simp add: round_half_even_def Let_def)
  then show ?thesis
    using round_double_binade [of 5 "400 / 11"] by (simp add: powr_neg_numeral)
qed

lemma rd_side_11: "round_double (11 * (5117726849284655 / 2 ^ 47)) = 7036874417766401 / 2 ^ 44"
proof -
  have "round_half_even (11 * (5117726849284655 / 2 ^ 47) * 2 ^ 44) = 7036874417766401"
    by (simp add: round_half_even_def Let_def)
  then show ?thesis
    using round_double_binade [of 8 "11 * (5117726849284655 / 2 ^ 47)"]
    by (simp add: powr_neg_numeral)
qed

lemma rd_diff_11: "round_double (400 - 7036874417766401 / 2 ^ 44) = - (1 / 2 ^ 44)"
proof -
  have v: "400 - 7036874417766401 / 2 ^ 44 = - (1 / 2 ^ 44 :: real)"
    by simp
  show ?thesis
    unfolding v using round_double_exact [of "-44" "- (1 / 2 ^ 44)" "- (2 ^ 52)"]
    by (simp add: powr_neg_numeral)
qed

lemma rd_offset_11: "round_double (- (1 / 2 ^ 44) / 2) = - (1 / 2 ^ 45)"
proof -
  have v: "- (1 / 2 ^ 44) / 2 = - (1 / 2 ^ 45 :: real)"
    by simp
  show ?thesis
    unfolding v using round_double_exact [of "-45" "- (1 / 2 ^ 45)" "- (2 ^ 52)"]
    by (simp add: powr_neg_numeral)
qed

lemma thumbnail2d_11_11:
  "thumbnail2d True 11 11
     = Some \<lparr>canvas_width = 400, canvas_height = 400, fillStyle = ''#f9fafb'',
              draw_scale = Num (5117726849284655 / 2 ^ 47),
              draw_x = Num (- (1 / 2 ^ 45)), draw_y = Num (- (1 / 2 ^ 45)),
              scaledWidth = Num (7036874417766401 / 2 ^ 44),
              scaledHeight = Num (7036874417766401 / 2 ^ 44)\<rparr>"
proof -
  have side: "real (unat (11 :: 32 word)) = 11"
    by simp
  have nz: "((11::real) = 0) = False" "((2::real) = 0) = False"
    by simp_all
  have scale: "Math_min (js_div (Num 400) (Num 11)) (js_div (Num 400) (Num 11))
      = Num (5117726849284655 / 2 ^ 47)"
    by (simp only: js_div.simps nz if_False rd_scale_11 Math_min.simps min.idem)
  have sw: "js_mul (Num 11) (Num (5117726849284655 / 2 ^ 47)) = Num (7036874417766401 / 2 ^ 44)"
    by (simp only: js_mul.simps rd_side_11)
  have off: "js_div (js_sub (Num 400) (Num (7036874417766401 / 2 ^ 44))) (Num 2)
      = Num (- (1 / 2 ^ 45))"
    by (simp only: js_sub.simps js_div.simps nz if_False rd_diff_11 rd_offset_11)
  show ?thesis
    by (simp only: thumbnail2d_def Let_def not_True_eq_False if_False side scale sw off)
qed

text \<open>
  Images with a side of 0 pixels.
\<close>

lemma thumbnail2d_0_0:
  "thumbnail2d True 0 0
     = Some \<lparr>canvas_width = 400, canvas_height = 400, fillStyle = ''#f9fafb'',
              draw_scale = PosInf, draw_x = NaN, draw_y = NaN,
              scaledWidth = NaN, scaledHeight = NaN\<rparr>"
  by (simp add: thumbnail2d_def Let_def)

lemma thumbnail2d_0_400:
  "thumbnail2d True 0 400
     = Some \<lparr>canvas_width = 400, canvas_height = 400, fillStyle = ''#f9fafb'',
              draw_scale = Num 1, draw_x = Num 200, draw_y = Num 0,
              scaledWidth = Num 0, scaledHeight = Num 400\<rparr>"
  by (simp add: thumbnail2d_def Let_def rd_1 rd_400 rd_200 rd_0)

section \<open>Properties\<close>

text \<open>
  C1, as the code has it. Start from a clean storage without cache entries and run any
  sequence of \<^verbatim>\<open>set\<close> calls, whatever the browser accepts or rejects at each call. After
  every call at most 101 entries are cached: the check runs before the write and compares
  with \<^verbatim>\<open>>\<close>, so the cap of 100 can be passed by one until the next call. A call raises the
  total recorded size by the length of the new payload at most; the total is not kept below
  50 MiB (lemma \<open>set_exceeds_size_cap\<close>).
\<close>

theorem set_capacity_bound:
  assumes "clean s0" and "entries_of s0 = []"
  shows "length (entries_of (run_sets calls s0)) \<le> 101
       \<and> totalSize (entries_of (snd (set_cache dev now now_retry modelId url (run_sets calls s0))))
           \<le> totalSize (entries_of (run_sets calls s0)) + length url"
proof
  show "length (entries_of (run_sets calls s0)) \<le> 101"
    using assms by (intro count_run_sets) simp_all
  show "totalSize (entries_of (snd (set_cache dev now now_retry modelId url (run_sets calls s0))))
           \<le> totalSize (entries_of (run_sets calls s0)) + length url"
    using assms(1) by (intro totalSize_set_cache clean_run_sets)
qed

text \<open>
  An instance of C1: three calls on the empty storage, and a fourth one.
\<close>

theorem set_capacity_bound_witness:
  "clean [] \<and> entries_of [] = []
   \<and> length (entries_of (run_sets (fresh_calls 3) [])) \<le> 101
   \<and> totalSize (entries_of (snd (set_cache permissive 7 7 ''a'' ''data'' (run_sets (fresh_calls 3) []))))
           \<le> totalSize (entries_of (run_sets (fresh_calls 3) [])) + length ''data''"
  using set_capacity_bound [of "[]" "fresh_calls 3" permissive 7 7 "''a''" "''data''"]
  by (simp add: clean_def)

text \<open>
  C1 as stated fails: 101 calls under different ids on the empty storage, every write
  accepted, leave 101 entries.
\<close>

theorem set_reaches_101_entries:
  "\<not> length (entries_of (run_sets (fresh_calls 101) [])) \<le> MAX_CACHE_ITEMS"
  by (simp add: run_fresh fresh_store_count MAX_CACHE_ITEMS_def)

text \<open>
  C2, as the code has it. When the storage accepts the write of \<^verbatim>\<open>set\<close> at the clock
  reading \<open>T\<close>, \<^verbatim>\<open>get\<close> returns the payload at every reading up to and including
  \<open>T + 7 days\<close>, and at every later reading it returns \<^verbatim>\<open>null\<close> and removes the key: the
  test is \<^verbatim>\<open>Date.now() - entry.timestamp > maxAge\<close>. When the first write is rejected and
  the retry is accepted, the same holds from the second reading of the clock
  (lemma \<open>get_after_retried_set\<close>).
\<close>

theorem get_after_set_within_7_days:
  assumes "fst (setItem dev (CACHE_PREFIX @ modelId)
               (JSON_stringify \<lparr>dataUrl = url, timestamp = T, size_bytes = length url\<rparr>)
               (snd (cleanupIfNeeded dev s))) = Returns ()"
  shows "get dev now modelId (snd (set_cache dev T T_retry modelId url s))
     = (if now \<le> T + maxAge
        then (Returns (Some url), snd (set_cache dev T T_retry modelId url s))
        else (Returns None,
              AList.delete (CACHE_PREFIX @ modelId) (snd (set_cache dev T T_retry modelId url s))))"
proof -
  let ?s' = "snd (set_cache dev T T_retry modelId url s)"
  have nd: "\<not> denied dev"
    using assms by (auto simp add: setItem_def)
  have a: "fst (setItem dev (CACHE_PREFIX @ modelId) (entry_at T url) (snd (cleanupIfNeeded dev s)))
      = Returns ()"
    using assms by (simp add: entry_at_def JSON_stringify_def)
  have "map_of ?s' (CACHE_PREFIX @ modelId)
      = Some (Json \<lparr>dataUrl = url, timestamp = T, size_bytes = length url\<rparr>)"
    unfolding set_cache_accepted [OF nd a] by (simp add: AList.update_conv' entry_at_def)
  from get_entry [OF nd this, of now] show ?thesis
    by (simp add: not_less)
qed

text \<open>
  An instance of C2: an entry written at 1000, read at 7 days and at 7 days and one
  millisecond after that.
\<close>

theorem get_after_set_within_7_days_witness:
  "\<not> denied permissive
   \<and> fst (setItem permissive (CACHE_PREFIX @ ''a'')
           (JSON_stringify \<lparr>dataUrl = ''data'', timestamp = 1000, size_bytes = length ''data''\<rparr>)
           (snd (cleanupIfNeeded permissive []))) = Returns ()
   \<and> get permissive (1000 + maxAge) ''a'' (snd (set_cache permissive 1000 1000 ''a'' ''data'' []))
       = (Returns (Some ''data''), snd (set_cache permissive 1000 1000 ''a'' ''data'' []))
   \<and> get permissive (1001 + maxAge) ''a'' (snd (set_cache permissive 1000 1000 ''a'' ''data'' []))
       = (Returns None,
          AList.delete (CACHE_PREFIX @ ''a'') (snd (set_cache permissive 1000 1000 ''a'' ''data'' [])))"
proof -
  have nd: "\<not> denied permissive" by (simp add: permissive_def)
  have acc: "fst (setItem permissive (CACHE_PREFIX @ ''a'')
           (JSON_stringify \<lparr>dataUrl = ''data'', timestamp = 1000, size_bytes = length ''data''\<rparr>)
           (snd (cleanupIfNeeded permissive []))) = Returns ()"
    by (simp add: setItem_def permissive_def)
  show ?thesis
    using get_after_set_within_7_days [OF acc, of "1000 + maxAge" 1000]
      get_after_set_within_7_days [OF acc, of "1001 + maxAge" 1000] nd acc
    by simp
qed

text \<open>
  C2 as stated fails at the boundary: an entry written at 1000 and read at exactly
  1000 + 7 days is returned and stays in the storage.
\<close>

theorem get_at_exactly_7_days_returns_payload:
  "get permissive (1000 + 7 * 24 * 60 * 60 * 1000) ''a''
       (snd (set_cache permissive 1000 1000 ''a'' ''data'' []))
     = (Returns (Some ''data''), [(''thumbnail_a'', entry_at 1000 ''data'')])"
proof -
  have c: "clean []" by (simp add: clean_def)
  have "snd (set_cache permissive 1000 1000 ''a'' ''data'' [])
      = [(''thumbnail_a'', entry_at 1000 ''data'')]"
    by (simp add: set_cache_snd [OF c] permissive_def after_set_def after_check_def over_limit_def
        totalSize_def CACHE_PREFIX_def)
  then show ?thesis
    by (simp add: get_def getItem_def permissive_def entry_at_def maxAge_def CACHE_PREFIX_def)
qed

text \<open>
  C3, as the code has it. Take a clean storage, that is one in which every key under the
  cache namespace holds a parseable entry, in a browser that does not deny access, with
  entries that exceed 50 MiB in total or 100 in number. Then \<^verbatim>\<open>cleanupIfNeeded\<close>, the first
  step of \<^verbatim>\<open>set\<close>, removes exactly \<open>max (n - 100 + 10) (ceiling (n * 0.2))\<close> entries, \<open>n\<close>
  being the number of entries under the namespace, expired ones included. They are the first
  ones of the entries sorted by timestamp, so no entry that is kept is older than one that is
  removed. The sort compares timestamps only and is stable: of two entries with the same
  timestamp, the one that the storage enumerates first is removed first. No order on the
  keys is consulted. Nothing is said here about storages with unparsable texts under the
  namespace, where the enumeration passes over keys (lemma \<open>getAllEntries_dirty\<close>).
\<close>

theorem cleanupIfNeeded_evicts_oldest:
  assumes "\<not> denied dev" and "clean s"
    and "totalSize (entries_of s) > MAX_CACHE_SIZE \<or> length (entries_of s) > MAX_CACHE_ITEMS"
  defines "n \<equiv> length (entries_of s)"
  defines "r \<equiv> nat (max (int n - 100 + 10) \<lceil>real n * 0.2\<rceil>)"
  defines "evicted \<equiv> take r (sort_key (\<lambda>p. timestamp (snd p)) (entries_of s))"
  defines "s' \<equiv> snd (cleanupIfNeeded dev s)"
  shows "cleanupIfNeeded dev s = (Returns (), filter (\<lambda>p. fst p \<notin> fst ` set evicted) s)
       \<and> length evicted = r
       \<and> entries_of s' = filter (\<lambda>p. p \<notin> set evicted) (entries_of s)
       \<and> length (entries_of s') = n - r
       \<and> (\<forall>v\<in>set evicted. \<forall>p\<in>set (entries_of s'). timestamp (snd v) \<le> timestamp (snd p))
       \<and> (\<forall>i j. i < j \<and> j < n \<and> timestamp (snd (entries_of s ! i)) = timestamp (snd (entries_of s ! j))
              \<and> entries_of s ! j \<in> set evicted \<longrightarrow> entries_of s ! i \<in> set evicted)"
proof -
  let ?es = "entries_of s"
  have rc: "removeCount n = max (int n - 100 + 10) \<lceil>real n * 0.2\<rceil>"
    by (rule removeCount_ceiling)
  have r0: "0 \<le> removeCount n" by (rule removeCount_nonneg)
  have rn: "r \<le> n"
    using removeCount_le [of n] unfolding r_def rc [symmetric] by simp
  have ev: "evicted = victims (removeCount n) ?es"
    unfolding evicted_def r_def rc [symmetric] victims_nonneg [OF r0] ..
  have ol: "over_limit s"
    using assms(3) by (simp add: over_limit_def)
  have ac: "after_check s = evict (removeCount n) s"
    using ol by (simp add: after_check_def n_def)
  have 1: "cleanupIfNeeded dev s = (Returns (), filter (\<lambda>p. fst p \<notin> fst ` set evicted) s)"
    unfolding cleanupIfNeeded_clean [OF assms(1,2)] ac ev by (simp add: evict_def n_def)
  have s': "s' = evict (removeCount n) s"
    unfolding s'_def cleanupIfNeeded_clean [OF assms(1,2)] ac by simp
  have 2: "length evicted = r"
    using rn unfolding evicted_def by (simp add: n_def)
  have 3: "entries_of s' = filter (\<lambda>p. p \<notin> set evicted) ?es"
    unfolding s' ev n_def by (rule entries_of_evict' [OF assms(2)])
  have rr: "r = nat (removeCount n)"
    unfolding r_def rc ..
  have "length (entries_of (evict (removeCount n) s)) = n - min (nat (removeCount n)) n"
    using count_after_evict [OF assms(2) r0] unfolding n_def .
  then have 4: "length (entries_of s') = n - r"
    using rn unfolding s' rr by (simp add: min_def)
  have 5: "\<forall>v\<in>set evicted. \<forall>p\<in>set (entries_of s'). timestamp (snd v) \<le> timestamp (snd p)"
    unfolding 3 ev using victims_oldest [OF r0] by simp
  have d: "distinct ?es"
    using assms(2) distinct_entries_of [of s] by (simp add: clean_def distinct_map)
  have 6: "\<forall>i j. i < j \<and> j < n \<and> timestamp (snd (?es ! i)) = timestamp (snd (?es ! j))
              \<and> ?es ! j \<in> set evicted \<longrightarrow> ?es ! i \<in> set evicted"
    unfolding evicted_def n_def
    using take_sort_key_stable [OF d, of _ _ "\<lambda>p. timestamp (snd p)"] by blast
  show ?thesis
    using 1 2 3 4 5 6 by blast
qed

text \<open>
  An instance of C3: two entries of 30,000,000 characters; one of them is removed.
\<close>

theorem cleanupIfNeeded_evicts_oldest_witness:
  "\<not> denied permissive \<and> clean tie_store
   \<and> (MAX_CACHE_SIZE < totalSize (entries_of tie_store)
        \<or> MAX_CACHE_ITEMS < length (entries_of tie_store))
   \<and> cleanupIfNeeded permissive tie_store
       = (Returns (), [(''thumbnail_a'', entry_at 5 big_payload)])"
proof -
  have nd: "\<not> denied permissive" by (simp add: permissive_def)
  have ov: "MAX_CACHE_SIZE < totalSize (entries_of tie_store)
        \<or> MAX_CACHE_ITEMS < length (entries_of tie_store)"
    using tie_store_over by simp
  have "cleanupIfNeeded permissive tie_store = (Returns (), [(''thumbnail_a'', entry_at 5 big_payload)])"
    using cleanupIfNeeded_evicts_oldest [OF nd tie_store_clean ov]
    by (simp add: tie_store_entries) (simp add: tie_store_def)
  then show ?thesis
    using nd tie_store_clean ov by simp
qed

text \<open>
  C3 as stated fails on ties. The storage enumerates \<^verbatim>\<open>thumbnail_b\<close> before
  \<^verbatim>\<open>thumbnail_a\<close>, and both carry the same timestamp. A \<^verbatim>\<open>set\<close> call evicts one entry, and
  it is \<^verbatim>\<open>thumbnail_b\<close>, although \<^verbatim>\<open>thumbnail_a\<close> is the smaller key.
\<close>

theorem eviction_tie_not_by_key_order:
  "map fst tie_store = [''thumbnail_b'', ''thumbnail_a'']
   \<and> map_of (snd (set_cache permissive 6 6 ''c'' ''x'' tie_store)) ''thumbnail_b'' = None
   \<and> map_of (snd (set_cache permissive 6 6 ''c'' ''x'' tie_store)) ''thumbnail_a''
       = Some (entry_at 5 big_payload)
   \<and> ''thumbnail_a'' < ''thumbnail_b''"
proof -
  have nd: "\<not> denied permissive" by (simp add: permissive_def)
  have "snd (set_cache permissive 6 6 ''c'' ''x'' tie_store)
      = after_set permissive 6 6 ''c'' ''x'' tie_store"
    by (simp add: set_cache_snd [OF tie_store_clean] nd)
  also have "after_check tie_store = [(''thumbnail_a'', entry_at 5 big_payload)]"
    using tie_store_over
    by (simp add: after_check_def over_limit_def evict_def victims_def slice0_def removeCount_def
        MAX_CACHE_ITEMS_def tie_store_entries) (simp add: tie_store_def)
  then have "after_set permissive 6 6 ''c'' ''x'' tie_store
      = [(''thumbnail_a'', entry_at 5 big_payload), (''thumbnail_c'', entry_at 6 ''x'')]"
    by (simp add: after_set_def permissive_def CACHE_PREFIX_def)
  finally show ?thesis
    by (simp add: tie_store_def)
qed

text \<open>
  C5 fails on the code in \<^verbatim>\<open>getAllEntries\<close>. The storage holds two unparsable texts under
  \<^verbatim>\<open>thumbnail_a\<close> and \<^verbatim>\<open>thumbnail_b\<close>, then the entries \<^verbatim>\<open>thumbnail_c\<close> of timestamp 1 and
  \<^verbatim>\<open>thumbnail_d\<close> of timestamp 2, and the quota rejects the first write of \<^verbatim>\<open>set\<close>. The
  enumeration of \<^verbatim>\<open>cleanup(10)\<close> removes \<^verbatim>\<open>thumbnail_b\<close> inside its index loop and thereby
  passes over \<^verbatim>\<open>thumbnail_c\<close>: only \<^verbatim>\<open>thumbnail_d\<close> is listed and removed. After the one
  retry, which is accepted, the oldest entry \<^verbatim>\<open>thumbnail_c\<close> is still stored and the newer
  \<^verbatim>\<open>thumbnail_d\<close> is gone. On clean storages the 10 oldest entries are removed and
  \<^verbatim>\<open>set\<close> returns normally whatever the retry does
  (lemma \<open>set_retry_on_clean_storage\<close>).
\<close>

theorem set_retry_keeps_oldest_after_unparsable_keys:
  "fst (setItem small_disk (CACHE_PREFIX @ ''r'')
          (JSON_stringify \<lparr>dataUrl = ''zzzz'', timestamp = 8, size_bytes = length ''zzzz''\<rparr>)
          (snd (cleanupIfNeeded small_disk dirty_store))) = Throws QuotaExceededError
   \<and> set_cache small_disk 8 9 ''r'' ''zzzz'' dirty_store
       = (Returns (), [(''thumbnail_c'', entry_at 1 ''x''), (''thumbnail_r'', entry_at 9 ''zzzz'')])"
proof -
  have nd: "\<not> denied small_disk" by (simp add: small_disk_def)
  let ?s1 = "[(''thumbnail_b'', Malformed), (''thumbnail_c'', entry_at 1 ''x''),
              (''thumbnail_d'', entry_at 2 ''y'')]"
  have check: "cleanupIfNeeded small_disk dirty_store = (Returns (), ?s1)"
    by (simp add: cleanupIfNeeded_def getAllEntries_dirty [OF nd] totalSize_def
        MAX_CACHE_SIZE_def MAX_CACHE_ITEMS_def)
  have first: "setItem small_disk (CACHE_PREFIX @ ''r'')
      (JSON_stringify \<lparr>dataUrl = ''zzzz'', timestamp = 8, size_bytes = length ''zzzz''\<rparr>) ?s1
      = (Throws QuotaExceededError, ?s1)"
    by (simp add: setItem_def small_disk_def CACHE_PREFIX_def JSON_stringify_def entry_at_def
        totalSize_def)
  have clean10: "cleanup small_disk 10 ?s1 = (Returns (), [(''thumbnail_c'', entry_at 1 ''x'')])"
    unfolding cleanup_def getAllEntries_dirty_rest [OF nd]
    by (simp add: slice0_def removeItem_def small_disk_def)
  have retry: "set_retry small_disk 9 ''r'' ''zzzz'' ?s1
      = (Returns (), [(''thumbnail_c'', entry_at 1 ''x''), (''thumbnail_r'', entry_at 9 ''zzzz'')])"
    by (simp add: set_retry_def clean10)
      (simp add: setItem_def small_disk_def CACHE_PREFIX_def JSON_stringify_def entry_at_def
        totalSize_def)
  show ?thesis
    by (simp only: set_cache_def check first retry prod.case outcome.case fst_conv snd_conv
        simp_thms)
qed

text \<open>
  C6 fails on the code in \<^verbatim>\<open>get\<close>. On a stored text that \<^verbatim>\<open>JSON.parse\<close> rejects,
  \<^verbatim>\<open>get\<close> returns \<^verbatim>\<open>null\<close>, but its handler only logs: the key stays in the storage.
  The enumeration does remove such a key and does not count it
  (lemma \<open>getAllEntries_corrupt\<close>).
\<close>

theorem get_keeps_unparsable_key:
  "get permissive 0 ''a'' corrupt_store = (Returns None, corrupt_store)
   \<and> map_of (snd (get permissive 0 ''a'' corrupt_store)) ''thumbnail_a'' = Some Malformed"
proof -
  have "map_of corrupt_store (CACHE_PREFIX @ ''a'') = Some Malformed"
    by (simp add: corrupt_store_def CACHE_PREFIX_def)
  then have "get permissive 0 ''a'' corrupt_store = (Returns None, corrupt_store)"
    by (rule get_malformed)
  then show ?thesis
    by (simp add: corrupt_store_def)
qed





text \<open>
  C9 fails on the code in \<^verbatim>\<open>getStats\<close>. When access to the storage is denied,
  \<^verbatim>\<open>getStats\<close> throws: it calls \<^verbatim>\<open>getAllEntries\<close> outside any \<^verbatim>\<open>try\<close>. The other
  methods return normally on every browser and storage
  (lemma \<open>other_operations_never_throw\<close>).
\<close>

theorem getStats_throws_when_storage_denied:
  "getStats blocked [] = (Throws SecurityError, [])"
  by (simp add: getStats_denied blocked_def)



end
